theory Spec2Isabelle
  imports Complex_Main "HOL-Library.Word" "HOL-Library.Multiset" "HOL-Library.Char_ord" "HOL-Library.List_Lexorder"
    "HOL-Library.AList"
begin

unbundle bit_operations_syntax

section \<open>Common C and C++ library behaviour\<close>

text \<open>
  The errors of the program as values. \<open>Die_illegal_char\<close> is the fatal \<open>DIE\<close> of the
  constructor of \<open>PackedRead\<close> and of \<open>comp_nucleotide\<close>; \<open>Die\<close> is any other \<open>DIE\<close>, with its
  message; \<open>Out_of_range\<close> stands for a read outside a string or an array, which C++ leaves
  undefined or answers with the exception \<open>std::out_of_range\<close>; \<open>Division_by_zero\<close> is an integer
  division by zero.
\<close>

datatype error = Die_illegal_char char | Die string | Out_of_range | Division_by_zero

text \<open>
  A \<open>char\<close> of the source is a signed byte on the platforms the program is built for; this is
  its value after integral promotion.
\<close>

definition char_val :: "char \<Rightarrow> int" where
  "char_val c = (if (of_char c :: int) < 128 then of_char c else of_char c - 256)"

definition is_digit :: "char \<Rightarrow> bool" where
  "is_digit c \<longleftrightarrow> CHR ''0'' \<le> c \<and> c \<le> CHR ''9''"

definition is_space :: "char \<Rightarrow> bool" where
  "is_space c \<longleftrightarrow> c \<in> {CHR '' '', CHR 0x09, CHR 0x0A, CHR 0x0B, CHR 0x0C, CHR 0x0D}"

definition digit_val :: "char \<Rightarrow> int" where
  "digit_val c = of_char c - 48"

definition digit_char :: "nat \<Rightarrow> char" where
  "digit_char d = char_of (48 + int d)"

text \<open>\<open>std::to_string\<close> on an integer: the decimal digits, with a minus sign when negative.\<close>

fun nat_to_string :: "nat \<Rightarrow> string" where
  "nat_to_string n =
     (if n < 10 then [digit_char n] else nat_to_string (n div 10) @ [digit_char (n mod 10)])"

declare nat_to_string.simps [simp del]

definition to_string :: "int \<Rightarrow> string" where
  "to_string i = (if i < 0 then CHR ''-'' # nat_to_string (nat (- i)) else nat_to_string (nat i))"

text \<open>
  \<open>strtol(s, &endptr, 10)\<close> of the C library on a 64-bit \<open>long\<close>: white space is skipped, a
  sign is read, then the longest run of digits; the value saturates at the ends of the range of
  \<open>long\<close>; with no digit the value is 0 and \<open>endptr\<close> is \<open>s\<close>. The result is the value and the
  rest of the string at \<open>endptr\<close>.
\<close>

definition digits_value :: "string \<Rightarrow> int" where
  "digits_value ds = foldl (\<lambda>a c. 10 * a + digit_val c) 0 ds"

definition LONG_MAX :: int where
  "LONG_MAX = 2 ^ 63 - 1"

definition LONG_MIN :: int where
  "LONG_MIN = - (2 ^ 63)"

definition strtol_end :: "string \<Rightarrow> int \<times> string" where
  "strtol_end s =
     (let s1 = dropWhile is_space s;
          neg = (s1 \<noteq> [] \<and> hd s1 = CHR ''-'');
          s2 = (if s1 \<noteq> [] \<and> (hd s1 = CHR ''-'' \<or> hd s1 = CHR ''+'') then tl s1 else s1);
          ds = takeWhile is_digit s2;
          v = (if neg then - digits_value ds else digits_value ds)
      in if ds = [] then (0, s)
         else (max LONG_MIN (min LONG_MAX v), dropWhile is_digit s2))"

definition strtol :: "string \<Rightarrow> int" where
  "strtol s = fst (strtol_end s)"

section \<open>Packed reads (packed_reads.cpp)\<close>

text \<open>
  A packed read: the signed 64-bit pair-aware id, the length as \<open>uint16_t\<close> and one byte for
  each base.
\<close>

record PackedRead =
  read_id :: "64 word"
  read_len :: nat
  bytes :: "8 word list"

text \<open>The \<open>switch\<close> of the constructor: the code of a base, or the fatal error.\<close>

definition base_code :: "char \<Rightarrow> error + 8 word" where
  "base_code c =
     (if c = CHR ''A'' then Inr 0
      else if c = CHR ''C'' then Inr 1
      else if c = CHR ''G'' then Inr 2
      else if c = CHR ''T'' then Inr 3
      else if c = CHR ''N'' then Inr 4
      else if c \<in> {CHR ''U'', CHR ''R'', CHR ''Y'', CHR ''K'', CHR ''M'', CHR ''S'', CHR ''W'',
                    CHR ''B'', CHR ''D'', CHR ''H'', CHR ''V''} then Inr 4
      else Inl (Die_illegal_char c))"

text \<open>
  The loop of the constructor over the positions of \<open>seq\<close>. At each position the base is
  checked first, then the quality at the same position is read:
  \<open>bytes[i] |= ((unsigned char)std::min(quals[i] - qual_offset, 31) << 3)\<close>,
  the result cut to the byte it is stored in.
\<close>

fun pack_bytes :: "string \<Rightarrow> string \<Rightarrow> int \<Rightarrow> error + 8 word list" where
  "pack_bytes [] quals qual_offset = Inr []"
| "pack_bytes (c # seq) quals qual_offset =
     (case base_code c of
        Inl e \<Rightarrow> Inl e
      | Inr b \<Rightarrow>
          (case quals of
             [] \<Rightarrow> Inl Out_of_range
           | q # qs \<Rightarrow>
               (case pack_bytes seq qs qual_offset of
                  Inl e \<Rightarrow> Inl e
                | Inr bs \<Rightarrow>
                    Inr ((b OR push_bit 3 (word_of_int (min (char_val q - qual_offset) 31))) # bs))))"

text \<open>
  \<open>PackedRead::PackedRead(id_str, seq, quals, qual_offset)\<close>. The id is the number after the
  first character of \<open>id_str\<close> plus one, negated when \<open>id_str\<close> ends in \<open>1\<close>; the arithmetic is
  that of a 64-bit two's complement integer.
\<close>

definition PackedRead_new :: "string \<Rightarrow> string \<Rightarrow> string \<Rightarrow> int \<Rightarrow> error + PackedRead" where
  "PackedRead_new id_str seq quals qual_offset =
     (if id_str = [] then Inl Out_of_range
      else
        let rid0 = (word_of_int (strtol (tl id_str)) + 1 :: 64 word);
            rid = (if last id_str = CHR ''1'' then rid0 * (- 1) else rid0)
        in case pack_bytes seq quals qual_offset of
             Inl e \<Rightarrow> Inl e
           | Inr bs \<Rightarrow> Inr \<lparr>read_id = rid, read_len = length seq mod 65536, bytes = bs\<rparr>)"

text \<open>
  Modelled from the spec: the table \<open>nucleotide_map\<close> is declared in a header that is not
  among the sources; the spec gives A=0, C=1, G=2, T=3, N=4. An index beyond 4 is outside the
  table.
\<close>

definition nucleotide_map :: "8 word \<Rightarrow> error + char" where
  "nucleotide_map w =
     (if w = 0 then Inr CHR ''A''
      else if w = 1 then Inr CHR ''C''
      else if w = 2 then Inr CHR ''G''
      else if w = 3 then Inr CHR ''T''
      else if w = 4 then Inr CHR ''N''
      else Inl Out_of_range)"

text \<open>The loop of \<open>unpack\<close> over the first \<open>read_len\<close> bytes.\<close>

fun unpack_bytes :: "nat \<Rightarrow> 8 word list \<Rightarrow> int \<Rightarrow> error + string \<times> string" where
  "unpack_bytes 0 bs qual_offset = Inr ([], [])"
| "unpack_bytes (Suc n) [] qual_offset = Inl Out_of_range"
| "unpack_bytes (Suc n) (b # bs) qual_offset =
     (case nucleotide_map (b AND 7) of
        Inl e \<Rightarrow> Inl e
      | Inr c \<Rightarrow>
          (case unpack_bytes n bs qual_offset of
             Inl e \<Rightarrow> Inl e
           | Inr (seq, quals) \<Rightarrow>
               Inr (c # seq, char_of (qual_offset + uint (drop_bit 3 b)) # quals)))"

text \<open>
  \<open>PackedRead::unpack\<close>: the id string \<open>@r<|id|>/<pair>\<close>, the bases and the quality
  characters.
\<close>

definition unpack :: "PackedRead \<Rightarrow> int \<Rightarrow> error + string \<times> string \<times> string" where
  "unpack pr qual_offset =
     (let pair_id = (if sint (read_id pr) < 0 then CHR ''1'' else CHR ''2'');
          read_id_str = ''@r'' @ to_string \<bar>sint (read_id pr)\<bar> @ [CHR ''/'', pair_id]
      in case unpack_bytes (read_len pr) (bytes pr) qual_offset of
           Inl e \<Rightarrow> Inl e
         | Inr (seq, quals) \<Rightarrow> Inr (read_id_str, seq, quals))"


text \<open>
  The characters the constructor accepts, and what \<open>unpack\<close> gives back for each of them.
\<close>

definition legal_bases :: "char set" where
  "legal_bases = {CHR ''A'', CHR ''C'', CHR ''G'', CHR ''T'', CHR ''N'', CHR ''U'', CHR ''R'', CHR ''Y'', CHR ''K'', CHR ''M'', CHR ''S'', CHR ''W'',
                    CHR ''B'', CHR ''D'', CHR ''H'', CHR ''V''}"

definition iupac_codes :: "char set" where
  "iupac_codes = {CHR ''U'', CHR ''R'', CHR ''Y'', CHR ''K'', CHR ''M'', CHR ''S'', CHR ''W'',
                  CHR ''B'', CHR ''D'', CHR ''H'', CHR ''V''}"

definition unpacked_base :: "char \<Rightarrow> char" where
  "unpacked_base c = (if c \<in> {CHR ''A'', CHR ''C'', CHR ''G'', CHR ''T''} then c else CHR ''N'')"

text \<open>Construction followed by \<open>unpack\<close>, as \<open>add_read\<close> and \<open>get_next_read\<close> do in turn.\<close>

definition pack_then_unpack :: "string \<Rightarrow> string \<Rightarrow> string \<Rightarrow> int \<Rightarrow> error + string \<times> string \<times> string" where
  "pack_then_unpack id_str seq quals qual_offset =
     (case PackedRead_new id_str seq quals qual_offset of
        Inl e \<Rightarrow> Inl e
      | Inr pr \<Rightarrow> unpack pr qual_offset)"

subsection \<open>Decimal numbers: printing and parsing\<close>

lemma of_char_digit_char_int: "d < 10 \<Longrightarrow> (of_char (digit_char d) :: int) = 48 + int d"
  by (simp add: digit_char_def)

lemma of_char_digit_char: "d < 10 \<Longrightarrow> (of_char (digit_char d) :: nat) = 48 + d"
proof -
  assume d: "d < 10"
  have "int (of_char (digit_char d)) = int (48 + d)"
    using of_char_digit_char_int[OF d] by (simp only: of_nat_of_char)
  then show ?thesis by (simp only: of_nat_eq_iff)
qed

lemma is_digit_digit_char: "d < 10 \<Longrightarrow> is_digit (digit_char d)"
  by (simp add: is_digit_def less_eq_char_def of_char_digit_char)

lemma digit_val_digit_char: "d < 10 \<Longrightarrow> digit_val (digit_char d) = int d"
  by (simp add: digit_val_def of_char_digit_char_int)

lemma is_digit_not_space: "is_digit c \<Longrightarrow> \<not> is_space c"
  by (auto simp: is_digit_def is_space_def less_eq_char_def)

lemma is_digit_not_sign: "is_digit c \<Longrightarrow> c \<noteq> CHR ''-'' \<and> c \<noteq> CHR ''+''"
  by (auto simp: is_digit_def less_eq_char_def)

lemma nat_to_string_digits: "\<forall>c \<in> set (nat_to_string n). is_digit c"
proof (induction n rule: nat_to_string.induct)
  case (1 n)
  show ?case
  proof (cases "n < 10")
    case True
    then show ?thesis by (subst nat_to_string.simps) (simp add: is_digit_digit_char)
  next
    case False
    with 1 show ?thesis by (subst nat_to_string.simps) (simp add: is_digit_digit_char)
  qed
qed

lemma nat_to_string_nonempty: "nat_to_string n \<noteq> []"
  by (subst nat_to_string.simps) simp

lemma digits_value_snoc: "digits_value (ds @ [c]) = 10 * digits_value ds + digit_val c"
  by (simp add: digits_value_def)

lemma digits_value_nat_to_string: "digits_value (nat_to_string n) = int n"
proof (induction n rule: nat_to_string.induct)
  case (1 n)
  show ?case
  proof (cases "n < 10")
    case True
    then show ?thesis by (subst nat_to_string.simps) (simp add: digits_value_def digit_val_digit_char)
  next
    case False
    with 1 show ?thesis
      by (subst nat_to_string.simps) (simp add: digits_value_snoc digit_val_digit_char zdiv_int zmod_int)
  qed
qed


lemma strtol_end_nat_to_string:
  assumes "int n \<le> LONG_MAX" "rest = [] \<or> \<not> is_digit (hd rest)"
  shows "strtol_end (nat_to_string n @ rest) = (int n, rest)"
proof -
  let ?ds = "nat_to_string n"
  obtain c cs where ds: "?ds = c # cs" using nat_to_string_nonempty by (cases ?ds) auto
  have dig: "\<forall>c \<in> set ?ds. is_digit c" by (rule nat_to_string_digits)
  then have c: "is_digit c" using ds by simp
  have s1: "dropWhile is_space (?ds @ rest) = ?ds @ rest"
    using c is_digit_not_space by (simp add: ds)
  have hd: "hd (?ds @ rest) = c" by (simp add: ds)
  have tw: "takeWhile is_digit (?ds @ rest) = ?ds"
    using dig assms(2) by (cases rest) (auto simp: takeWhile_append2)
  have dw: "dropWhile is_digit (?ds @ rest) = rest"
    using dig assms(2) by (cases rest) (auto simp: dropWhile_append2)
  have rng: "max LONG_MIN (min LONG_MAX (int n)) = int n"
    using assms(1) by (simp add: LONG_MIN_def LONG_MAX_def)
  show ?thesis
    using is_digit_not_sign[OF c] nat_to_string_nonempty[of n]
    by (simp add: strtol_end_def s1 hd tw dw Let_def digits_value_nat_to_string rng)
qed

subsection \<open>The packed byte\<close>

lemma low3_split: "((b::8 word) OR push_bit 3 w) AND 7 = b AND 7"
proof -
  have 7: "(7 :: 8 word) = mask 3" by (simp add: mask_eq_exp_minus_1)
  show ?thesis unfolding 7
    by (rule bit_word_eqI) (auto simp: bit_simps)
qed

lemma drop3_split: "drop_bit 3 ((b::8 word) OR push_bit 3 w) = drop_bit 3 b OR take_bit 5 w"
  by (rule bit_word_eqI) (auto simp: bit_simps)

lemma small_byte:
  assumes "(b::8 word) < 8"
  shows "b AND 7 = b" and "drop_bit 3 b = 0"
proof -
  have 7: "(7 :: 8 word) = mask 3" by (simp add: mask_eq_exp_minus_1)
  show "b AND 7 = b" unfolding 7 using assms by (intro less_mask_eq) simp
  have "unat b < 8" using assms by (simp add: word_less_nat_alt)
  then have "unat (drop_bit 3 b) = 0"
    by (simp only: unat_drop_bit_eq) (simp add: drop_bit_eq_div)
  then show "drop_bit 3 b = 0" by (simp add: unat_eq_0)
qed

lemma qual_bits:
  assumes "0 \<le> m" "m \<le> 31"
  shows "uint (take_bit 5 (word_of_int m :: 8 word)) = m"
proof -
  have "take_bit 5 m = m" using assms by (simp add: take_bit_int_eq_self)
  moreover have "take_bit 8 m = m" using assms by (simp add: take_bit_int_eq_self)
  ultimately show ?thesis
    by (simp add: unsigned_take_bit_eq uint_word_of_int_eq)
qed

lemma packed_byte:
  assumes "(b::8 word) < 8" "0 \<le> m" "m \<le> 31"
  shows "(b OR push_bit 3 (word_of_int m)) AND 7 = b"
    and "uint (drop_bit 3 (b OR push_bit 3 (word_of_int m))) = m"
proof -
  show "(b OR push_bit 3 (word_of_int m)) AND 7 = b"
    by (simp only: low3_split small_byte(1)[OF assms(1)])
  show "uint (drop_bit 3 (b OR push_bit 3 (word_of_int m))) = m"
    by (simp only: drop3_split small_byte(2)[OF assms(1)] or.left_neutral qual_bits[OF assms(2,3)])
qed

lemma base_code_less: "base_code c = Inr b \<Longrightarrow> b < 8"
  by (auto simp: base_code_def split: if_splits)

lemma nucleotide_map_base_code:
  "base_code c = Inr b \<Longrightarrow> nucleotide_map b = Inr (unpacked_base c)"
  by (auto simp: base_code_def nucleotide_map_def unpacked_base_def split: if_splits)

lemma base_code_legal: "c \<in> legal_bases \<Longrightarrow> \<exists>b. base_code c = Inr b"
  by (auto simp: base_code_def legal_bases_def)

lemma base_code_illegal: "base_code c = Inl e \<longleftrightarrow> c \<notin> legal_bases \<and> e = Die_illegal_char c"
  by (auto simp: base_code_def legal_bases_def)

lemma pack_bytes_ok:
  assumes "set seq \<subseteq> legal_bases" "length seq \<le> length quals"
  shows "\<exists>bs. pack_bytes seq quals off = Inr bs \<and> length bs = length seq"
  using assms
proof (induction seq quals off rule: pack_bytes.induct)
  case (1 quals qual_offset)
  then show ?case by simp
next
  case (2 c seq quals qual_offset)
  then obtain b where b: "base_code c = Inr b" using base_code_legal by fastforce
  from 2(2,3) obtain q qs where q: "quals = q # qs" by (cases quals) auto
  have "set seq \<subseteq> legal_bases" "length seq \<le> length qs" using 2(2,3) q by auto
  from 2(1)[OF b q this] obtain bs where "pack_bytes seq qs qual_offset = Inr bs" "length bs = length seq"
    by auto
  with b q show ?case by simp
qed

lemma unpack_pack_bytes:
  assumes "pack_bytes seq quals off = Inr bs" "\<forall>q \<in> set (take (length seq) quals). off \<le> char_val q"
  shows "unpack_bytes (length seq) bs off =
           Inr (map unpacked_base seq, map (\<lambda>q. char_of (off + min (char_val q - off) 31)) (take (length seq) quals))"
  using assms
proof (induction seq quals off arbitrary: bs rule: pack_bytes.induct)
  case (1 quals qual_offset)
  then show ?case by simp
next
  case (2 c seq quals qual_offset)
  from 2(2) obtain b where b: "base_code c = Inr b" by (auto split: sum.splits)
  from 2(2) b obtain q qs where q: "quals = q # qs" by (auto split: sum.splits list.splits)
  from 2(2) b q obtain bs' where bs': "pack_bytes seq qs qual_offset = Inr bs'"
    and bs: "bs = (b OR push_bit 3 (word_of_int (min (char_val q - qual_offset) 31))) # bs'"
    by (auto split: sum.splits)
  have m: "0 \<le> min (char_val q - qual_offset) 31" "min (char_val q - qual_offset) 31 \<le> 31"
    using 2(3) q by auto
  have IH: "unpack_bytes (length seq) bs' qual_offset =
     Inr (map unpacked_base seq, map (\<lambda>q. char_of (qual_offset + min (char_val q - qual_offset) 31)) (take (length seq) qs))"
    using 2(1)[OF b q bs'] 2(3) q by simp
  show ?case
    using IH packed_byte[OF base_code_less[OF b] m] nucleotide_map_base_code[OF b]
    by (simp add: bs q)
qed

subsection \<open>The sign of the read id\<close>

lemma sint_word64_of_int:
  assumes "- (2 ^ 63) \<le> k" "k < 2 ^ 63"
  shows "sint (word_of_int k :: 64 word) = k"
  using assms by (simp add: sint_sbintrunc' signed_take_bit_int_eq_self)

lemma read_id_value:
  assumes "0 \<le> v" "v < LONG_MAX"
  shows "sint (word_of_int v + 1 :: 64 word) = v + 1"
    and "sint ((word_of_int v + 1) * (- 1) :: 64 word) = - (v + 1)"
proof -
  have 1: "(word_of_int v + 1 :: 64 word) = word_of_int (v + 1)" by simp
  have 2: "((word_of_int v + 1) * (- 1) :: 64 word) = word_of_int (- (v + 1))" by simp
  show "sint (word_of_int v + 1 :: 64 word) = v + 1"
    unfolding 1 using assms by (intro sint_word64_of_int) (simp_all add: LONG_MAX_def)
  show "sint ((word_of_int v + 1) * (- 1) :: 64 word) = - (v + 1)"
    unfolding 2 using assms by (intro sint_word64_of_int) (simp_all add: LONG_MAX_def)
qed

lemma PackedRead_new_InrD:
  assumes "PackedRead_new id_str seq quals off = Inr pr"
  shows "id_str \<noteq> []"
    and "read_id pr = (if last id_str = CHR ''1'' then (word_of_int (strtol (tl id_str)) + 1) * (- 1)
                       else word_of_int (strtol (tl id_str)) + 1)"
    and "read_len pr = length seq mod 65536"
    and "pack_bytes seq quals off = Inr (bytes pr)"
  using assms by (auto simp: PackedRead_new_def Let_def split: if_splits sum.splits)

text \<open>
  Claim C5, as the code has it: the sign of the id encodes the pair the other way round from the
  claim. For an id string whose number is not negative, the read gets a negative id exactly when
  the id string ends in \<open>1\<close> (pair 1) and a positive id otherwise (pair 2); the absolute value
  is the number plus one; \<open>unpack\<close> prints \<open>/1\<close> for a negative id and \<open>/2\<close> for a positive one,
  so construction and unpacking agree.
\<close>

theorem read_id_sign_encodes_pair:
  assumes "PackedRead_new id_str seq quals off = Inr pr"
    and "0 \<le> strtol (tl id_str)" and "strtol (tl id_str) < LONG_MAX"
  shows "(sint (read_id pr) < 0 \<longleftrightarrow> last id_str = CHR ''1'') \<and>
         (0 < sint (read_id pr) \<longleftrightarrow> last id_str \<noteq> CHR ''1'') \<and>
         \<bar>sint (read_id pr)\<bar> = strtol (tl id_str) + 1 \<and>
         (\<forall>ids s q. unpack pr off = Inr (ids, s, q) \<longrightarrow>
            ids = ''@r'' @ to_string (strtol (tl id_str) + 1) @
                  [CHR ''/'', if last id_str = CHR ''1'' then CHR ''1'' else CHR ''2''])"
proof (cases "last id_str = CHR ''1''")
  case True
  have "sint (read_id pr) = - (strtol (tl id_str) + 1)"
    using PackedRead_new_InrD(2)[OF assms(1)] True read_id_value(2)[OF assms(2,3)] by simp
  with True assms(2) show ?thesis
    by (auto simp: unpack_def Let_def add.commute split: sum.splits)
next
  case False
  have "sint (read_id pr) = strtol (tl id_str) + 1"
    using PackedRead_new_InrD(2)[OF assms(1)] False read_id_value(1)[OF assms(2,3)] by simp
  with False assms(2) show ?thesis
    by (auto simp: unpack_def Let_def add.commute split: sum.splits)
qed

lemma strtol_41: "strtol ''41/1'' = 41"
  by (simp add: strtol_def strtol_end_def is_space_def is_digit_def less_eq_char_def
      digits_value_def digit_val_def LONG_MAX_def LONG_MIN_def Let_def)

lemma strtol_0: "strtol ''0/1'' = 0"
  by (simp add: strtol_def strtol_end_def is_space_def is_digit_def less_eq_char_def
      digits_value_def digit_val_def LONG_MAX_def LONG_MIN_def Let_def)

lemma to_string_42: "to_string 42 = ''42''"
  by (simp add: to_string_def nat_to_string.simps digit_char_def char_of_def)

lemma to_string_1: "to_string 1 = ''1''"
  by (simp add: to_string_def nat_to_string.simps digit_char_def char_of_def)

lemma pack_bytes_A: "pack_bytes ''A'' ''I'' 33 = Inr [248]"
  by (simp add: base_code_def char_val_def)

lemma unpack_bytes_A: "unpack_bytes (Suc 0) [248] 33 = Inr (''A'', ''@'')"
  by (simp add: nucleotide_map_def char_of_def)

lemma PackedRead_new_r41:
  "PackedRead_new ''r41/1'' ''A'' ''I'' 33 = Inr \<lparr>read_id = - 42, read_len = 1, bytes = [248]\<rparr>"
  unfolding PackedRead_new_def by (simp add: strtol_41 pack_bytes_A del: pack_bytes.simps)

lemma unpack_r41:
  "unpack \<lparr>read_id = - 42, read_len = 1, bytes = [248]\<rparr> 33 = Inr (''@r42/1'', ''A'', ''@'')"
  unfolding unpack_def by (simp add: to_string_42 unpack_bytes_A del: unpack_bytes.simps)

text \<open>The theorem of claim C5 at the read \<open>r41/1\<close>.\<close>

theorem read_id_sign_encodes_pair_witness:
  "PackedRead_new ''r41/1'' ''A'' ''I'' 33 = Inr \<lparr>read_id = - 42, read_len = 1, bytes = [248]\<rparr> \<and>
   0 \<le> strtol ''41/1'' \<and> strtol ''41/1'' < LONG_MAX \<and>
   sint (- 42 :: 64 word) < 0 \<and> last ''r41/1'' = CHR ''1'' \<and>
   unpack \<lparr>read_id = - 42, read_len = 1, bytes = [248]\<rparr> 33 = Inr (''@r42/1'', ''A'', ''@'')"
proof -
  have h2: "0 \<le> strtol (tl ''r41/1'')" and h3: "strtol (tl ''r41/1'') < LONG_MAX"
    by (simp_all add: strtol_41 LONG_MAX_def)
  show ?thesis
    using read_id_sign_encodes_pair [OF PackedRead_new_r41 h2 h3] unpack_r41
    by (simp add: strtol_41 LONG_MAX_def PackedRead_new_r41)
qed

text \<open>
  Claim C5 as stated fails: the first read of pair 0, \<open>r0/1\<close>, gets the negative id -1, and the
  negative id is unpacked as pair 1.
\<close>

theorem read_id_positive_pair1_counterexample:
  "PackedRead_new ''r0/1'' ''A'' ''I'' 33 = Inr \<lparr>read_id = - 1, read_len = 1, bytes = [248]\<rparr> \<and>
   sint (- 1 :: 64 word) < 0 \<and>
   unpack \<lparr>read_id = - 1, read_len = 1, bytes = [248]\<rparr> 33 = Inr (''@r1/1'', ''A'', ''@'')"
proof -
  have "PackedRead_new ''r0/1'' ''A'' ''I'' 33 = Inr \<lparr>read_id = - 1, read_len = 1, bytes = [248]\<rparr>"
    unfolding PackedRead_new_def by (simp add: strtol_0 pack_bytes_A del: pack_bytes.simps)
  moreover have "unpack \<lparr>read_id = - 1, read_len = 1, bytes = [248]\<rparr> 33 = Inr (''@r1/1'', ''A'', ''@'')"
    unfolding unpack_def by (simp add: to_string_1 unpack_bytes_A del: unpack_bytes.simps)
  ultimately show ?thesis by simp
qed

subsection \<open>The round trip of bases and qualities\<close>

lemma unpack_pack_bytes_seq:
  assumes "pack_bytes seq quals off = Inr bs"
  shows "\<exists>quals'. unpack_bytes (length seq) bs off = Inr (map unpacked_base seq, quals')"
  using assms
proof (induction seq quals off arbitrary: bs rule: pack_bytes.induct)
  case (1 quals qual_offset)
  then show ?case by simp
next
  case (2 c seq quals qual_offset)
  from 2(2) obtain b where b: "base_code c = Inr b" by (auto split: sum.splits)
  from 2(2) b obtain q qs where q: "quals = q # qs" by (auto split: sum.splits list.splits)
  from 2(2) b q obtain bs' where bs': "pack_bytes seq qs qual_offset = Inr bs'"
    and bs: "bs = (b OR push_bit 3 (word_of_int (min (char_val q - qual_offset) 31))) # bs'"
    by (auto split: sum.splits)
  from 2(1)[OF b q bs'] obtain quals' where
    IH: "unpack_bytes (length seq) bs' qual_offset = Inr (map unpacked_base seq, quals')" by blast
  have low: "(b OR push_bit 3 (word_of_int (min (char_val q - qual_offset) 31))) AND 7 = b"
    by (simp only: low3_split small_byte(1)[OF base_code_less[OF b]])
  show ?case
    using IH nucleotide_map_base_code[OF b] by (simp add: bs low)
qed

lemma pack_bytes_illegal:
  "pack_bytes seq quals off = Inl e \<Longrightarrow>
     e = Out_of_range \<or> (\<exists>c \<in> set seq. c \<notin> legal_bases \<and> e = Die_illegal_char c)"
proof (induction seq quals off rule: pack_bytes.induct)
  case (1 quals qual_offset)
  then show ?case by simp
next
  case (2 c seq quals qual_offset)
  show ?case
  proof (cases "base_code c")
    case (Inl e')
    with 2(2) base_code_illegal[of c e'] show ?thesis by auto
  next
    case (Inr b)
    show ?thesis
    proof (cases quals)
      case Nil
      with 2(2) Inr show ?thesis by simp
    next
      case (Cons q qs)
      with 2(2) Inr have "pack_bytes seq qs qual_offset = Inl e" by (auto split: sum.splits)
      from 2(1)[OF Inr Cons this] show ?thesis by auto
    qed
  qed
qed

lemma pack_bytes_first_illegal:
  assumes "length seq \<le> length quals" "\<not> set seq \<subseteq> legal_bases"
  shows "\<exists>c \<in> set seq. c \<notin> legal_bases \<and> pack_bytes seq quals off = Inl (Die_illegal_char c)"
  using assms
proof (induction seq quals off rule: pack_bytes.induct)
  case (1 quals qual_offset)
  then show ?case by simp
next
  case (2 c seq quals qual_offset)
  show ?case
  proof (cases "c \<in> legal_bases")
    case False
    then have "base_code c = Inl (Die_illegal_char c)" by (simp add: base_code_illegal)
    with False show ?thesis by simp
  next
    case True
    then obtain b where b: "base_code c = Inr b" using base_code_legal by blast
    from 2(2) obtain q qs where q: "quals = q # qs" by (cases quals) auto
    have "length seq \<le> length qs" "\<not> set seq \<subseteq> legal_bases" using 2(2,3) q True by auto
    from 2(1)[OF b q this] b q show ?thesis by auto
  qed
qed

lemma unpacked_base_id: "c \<in> {CHR ''A'', CHR ''C'', CHR ''G'', CHR ''T'', CHR ''N''} \<Longrightarrow> unpacked_base c = c"
  by (auto simp: unpacked_base_def)

lemma map_unpacked_base_id:
  "set seq \<subseteq> {CHR ''A'', CHR ''C'', CHR ''G'', CHR ''T'', CHR ''N''} \<Longrightarrow> map unpacked_base seq = seq"
  by (induction seq) (simp_all add: unpacked_base_id del: insert_iff)

text \<open>
  Claim C9, for reads shorter than 65536 bases: when the bases are in A, C, G, T, N, there is a
  quality for each base and every quality character is at least the offset, unpacking the
  packed read gives back the same bases, and each quality character is the offset plus
  \<open>min (q - offset) 31\<close>.
\<close>

theorem unpack_pack_roundtrip:
  assumes "id_str \<noteq> []"
    and "set seq \<subseteq> {CHR ''A'', CHR ''C'', CHR ''G'', CHR ''T'', CHR ''N''}"
    and "length quals = length seq"
    and "\<forall>q \<in> set quals. off \<le> char_val q"
    and "length seq < 65536"
  shows "\<exists>ids. pack_then_unpack id_str seq quals off =
           Inr (ids, seq, map (\<lambda>q. char_of (off + min (char_val q - off) 31)) quals)"
proof -
  have legal: "set seq \<subseteq> legal_bases" using assms(2) by (auto simp: legal_bases_def)
  from pack_bytes_ok[OF legal, of quals off] assms(3)
  obtain bs where bs: "pack_bytes seq quals off = Inr bs" by auto
  have "unpack_bytes (length seq) bs off =
      Inr (map unpacked_base seq, map (\<lambda>q. char_of (off + min (char_val q - off) 31)) (take (length seq) quals))"
    using unpack_pack_bytes[OF bs] assms(3,4) by simp
  then have "unpack_bytes (length seq) bs off =
      Inr (seq, map (\<lambda>q. char_of (off + min (char_val q - off) 31)) quals)"
    using map_unpacked_base_id[OF assms(2)] assms(3) by simp
  then show ?thesis
    using assms(1,5) bs
    by (simp add: pack_then_unpack_def PackedRead_new_def unpack_def Let_def)
qed


lemma pack_bytes_replicate:
  "pack_bytes (replicate n CHR ''A'') (replicate n CHR ''I'') 33 = Inr (replicate n 248)"
  by (induction n) (simp_all add: base_code_def char_val_def)

text \<open>
  Claim C9 as stated fails on a read of 65536 bases: its length is stored as \<open>uint16_t\<close>, that
  is 0, and \<open>unpack\<close> returns the empty sequence.
\<close>

theorem unpack_long_read_counterexample:
  "pack_then_unpack ''r0/1'' (replicate 65536 CHR ''A'') (replicate 65536 CHR ''I'') 33 =
     Inr (''@r1/1'', [], []) \<and>
   length (replicate 65536 CHR ''A'') = 65536"
proof -
  have "PackedRead_new ''r0/1'' (replicate 65536 CHR ''A'') (replicate 65536 CHR ''I'') 33 =
      Inr \<lparr>read_id = - 1, read_len = 0, bytes = replicate 65536 248\<rparr>"
    unfolding PackedRead_new_def
    by (simp add: strtol_0 pack_bytes_replicate)
  moreover have "unpack \<lparr>read_id = - 1, read_len = 0, bytes = replicate 65536 248\<rparr> 33 =
      Inr (''@r1/1'', [], [])"
    unfolding unpack_def by (simp add: to_string_1)
  ultimately show ?thesis by (simp add: pack_then_unpack_def)
qed

text \<open>The theorem of claim C9 at the read \<open>ACGTN\<close> with qualities \<open>II5!~\<close> and offset 33.\<close>

theorem unpack_pack_roundtrip_witness:
  "''r7/2'' \<noteq> [] \<and>
   set ''ACGTN'' \<subseteq> {CHR ''A'', CHR ''C'', CHR ''G'', CHR ''T'', CHR ''N''} \<and>
   length ''II5!~'' = length ''ACGTN'' \<and>
   list_all (\<lambda>q. 33 \<le> char_val q) ''II5!~'' \<and>
   length ''ACGTN'' < (65536 :: nat) \<and>
   (\<exists>ids. pack_then_unpack ''r7/2'' ''ACGTN'' ''II5!~'' 33 = Inr (ids, ''ACGTN'', ''@@5!@''))"
proof -
  have h2: "set ''ACGTN'' \<subseteq> {CHR ''A'', CHR ''C'', CHR ''G'', CHR ''T'', CHR ''N''}" by simp
  have h4: "\<forall>q \<in> set ''II5!~''. 33 \<le> char_val q" by (simp add: char_val_def)
  have m: "map (\<lambda>q. char_of (33 + min (char_val q - 33) 31)) ''II5!~'' = ''@@5!@''"
    by (simp add: char_val_def char_of_def)
  have "\<exists>ids. pack_then_unpack ''r7/2'' ''ACGTN'' ''II5!~'' 33 = Inr (ids, ''ACGTN'', ''@@5!@'')"
    using unpack_pack_roundtrip [of "''r7/2''" "''ACGTN''" "''II5!~''" 33, OF _ h2 _ h4]
    unfolding m by simp
  with h4 show ?thesis by (simp add: list_all_iff)
qed

subsection \<open>Illegal characters\<close>

lemma legal_bases_iupac:
  "legal_bases = {CHR ''A'', CHR ''C'', CHR ''G'', CHR ''T'', CHR ''N''} \<union> iupac_codes"
  by (auto simp: legal_bases_def iupac_codes_def)

lemma base_code_iupac: "c \<in> iupac_codes \<Longrightarrow> base_code c = Inr 4 \<and> unpacked_base c = CHR ''N''"
  by (auto simp: iupac_codes_def base_code_def unpacked_base_def)

lemma PackedRead_new_Inl:
  "PackedRead_new id_str seq quals off = Inl e \<longleftrightarrow>
     (id_str = [] \<and> e = Out_of_range) \<or> (id_str \<noteq> [] \<and> pack_bytes seq quals off = Inl e)"
  by (auto simp: PackedRead_new_def Let_def split: sum.splits)

text \<open>
  Claim C10, with the bound on the length that unpacking needs: the constructor ends in the
  fatal error only on a character of the sequence outside A, C, G, T, N and the eleven IUPAC
  ambiguity codes, and it does so whenever there is one (the other failure of the model,
  \<open>Out_of_range\<close>, is a read outside a string, not a fatal error of the program); the ambiguity
  codes are encoded like N, as 4; and unpacking an accepted read of fewer than 65536 bases
  gives N at the positions of N and of the ambiguity codes, the base itself elsewhere.
\<close>

theorem PackedRead_new_fatal_only_illegal_char:
  "(\<forall>e. PackedRead_new id_str seq quals off = Inl e \<longrightarrow>
        e = Out_of_range \<or> (\<exists>c \<in> set seq. c \<notin> legal_bases \<and> e = Die_illegal_char c)) \<and>
   (id_str \<noteq> [] \<and> length seq \<le> length quals \<and> \<not> set seq \<subseteq> legal_bases \<longrightarrow>
      (\<exists>c \<in> set seq. c \<notin> legal_bases \<and>
         PackedRead_new id_str seq quals off = Inl (Die_illegal_char c))) \<and>
   (\<forall>c \<in> iupac_codes. base_code c = base_code CHR ''N'' \<and> base_code c = Inr 4 \<and>
      unpacked_base c = CHR ''N'') \<and>
   (id_str \<noteq> [] \<and> set seq \<subseteq> legal_bases \<and> length seq \<le> length quals \<and> length seq < 65536 \<longrightarrow>
      (\<exists>ids quals'. pack_then_unpack id_str seq quals off = Inr (ids, map unpacked_base seq, quals')))"
proof (intro conjI allI impI ballI)
  fix e assume "PackedRead_new id_str seq quals off = Inl e"
  then show "e = Out_of_range \<or> (\<exists>c \<in> set seq. c \<notin> legal_bases \<and> e = Die_illegal_char c)"
    using pack_bytes_illegal[of seq quals off e] by (auto simp: PackedRead_new_Inl)
next
  assume "id_str \<noteq> [] \<and> length seq \<le> length quals \<and> \<not> set seq \<subseteq> legal_bases"
  then show "\<exists>c \<in> set seq. c \<notin> legal_bases \<and>
         PackedRead_new id_str seq quals off = Inl (Die_illegal_char c)"
    using pack_bytes_first_illegal[of seq quals off] by (auto simp: PackedRead_new_Inl)
next
  fix c assume "c \<in> iupac_codes"
  then show "base_code c = base_code CHR ''N''" "base_code c = Inr 4" "unpacked_base c = CHR ''N''"
    using base_code_iupac[of c] by (simp_all add: base_code_def)
next
  assume a: "id_str \<noteq> [] \<and> set seq \<subseteq> legal_bases \<and> length seq \<le> length quals \<and> length seq < 65536"
  then obtain bs where bs: "pack_bytes seq quals off = Inr bs"
    using pack_bytes_ok[of seq quals off] by auto
  from unpack_pack_bytes_seq[OF bs] obtain quals' where
    "unpack_bytes (length seq) bs off = Inr (map unpacked_base seq, quals')" by blast
  then show "\<exists>ids quals'. pack_then_unpack id_str seq quals off = Inr (ids, map unpacked_base seq, quals')"
    using a bs by (simp add: pack_then_unpack_def PackedRead_new_def unpack_def Let_def)
qed

text \<open>The theorem of claim C10 at the reads \<open>ARYN\<close> (accepted) and \<open>AZ\<close> (fatal).\<close>

theorem PackedRead_new_fatal_only_illegal_char_witness:
  "''r7/2'' \<noteq> [] \<and> set ''ARYN'' \<subseteq> legal_bases \<and> length ''ARYN'' \<le> length ''IIII'' \<and>
   length ''ARYN'' < (65536 :: nat) \<and>
   (\<exists>ids quals'. pack_then_unpack ''r7/2'' ''ARYN'' ''IIII'' 33 = Inr (ids, ''ANNN'', quals')) \<and>
   \<not> set ''AZ'' \<subseteq> legal_bases \<and>
   PackedRead_new ''r7/2'' ''AZ'' ''II'' 33 = Inl (Die_illegal_char CHR ''Z'')"
proof -
  have h: "set ''ARYN'' \<subseteq> legal_bases" by (simp add: legal_bases_def)
  have m: "map unpacked_base ''ARYN'' = ''ANNN''" by (simp add: unpacked_base_def)
  have z: "\<not> set ''AZ'' \<subseteq> legal_bases" by (simp add: legal_bases_def)
  have a: "CHR ''A'' \<in> legal_bases" by (simp add: legal_bases_def)
  note t = PackedRead_new_fatal_only_illegal_char
  have "\<exists>ids quals'. pack_then_unpack ''r7/2'' ''ARYN'' ''IIII'' 33 = Inr (ids, ''ANNN'', quals')"
    using t [of "''r7/2''" "''ARYN''" "''IIII''" 33] h unfolding m by simp
  moreover have "PackedRead_new ''r7/2'' ''AZ'' ''II'' 33 = Inl (Die_illegal_char CHR ''Z'')"
    using t [of "''r7/2''" "''AZ''" "''II''" 33] z a by auto
  ultimately show ?thesis using h z by simp
qed

lemma pack_bytes_replicate_R:
  "pack_bytes (replicate n CHR ''R'') (replicate n CHR ''I'') 33 = Inr (replicate n 252)"
  by (induction n) (simp_all add: base_code_def char_val_def)

text \<open>
  Claim C10 as stated fails on a read of 65536 ambiguity codes \<open>R\<close>: the constructor accepts it
  and encodes every base as 4, but the length is stored as \<open>uint16_t\<close>, that is 0, and \<open>unpack\<close>
  returns the empty sequence, with no N at any of the positions.
\<close>

theorem unpack_long_iupac_read_counterexample:
  "CHR ''R'' \<in> iupac_codes \<and>
   PackedRead_new ''r0/1'' (replicate 65536 CHR ''R'') (replicate 65536 CHR ''I'') 33 =
     Inr \<lparr>read_id = - 1, read_len = 0, bytes = replicate 65536 252\<rparr> \<and>
   pack_then_unpack ''r0/1'' (replicate 65536 CHR ''R'') (replicate 65536 CHR ''I'') 33 =
     Inr (''@r1/1'', [], []) \<and>
   map unpacked_base (replicate 65536 CHR ''R'') \<noteq> []"
proof -
  have p: "PackedRead_new ''r0/1'' (replicate 65536 CHR ''R'') (replicate 65536 CHR ''I'') 33 =
      Inr \<lparr>read_id = - 1, read_len = 0, bytes = replicate 65536 252\<rparr>"
    unfolding PackedRead_new_def
    by (simp add: strtol_0 pack_bytes_replicate_R)
  moreover have "unpack \<lparr>read_id = - 1, read_len = 0, bytes = replicate 65536 252\<rparr> 33 =
      Inr (''@r1/1'', [], [])"
    unfolding unpack_def by (simp add: to_string_1)
  ultimately show ?thesis by (simp add: pack_then_unpack_def iupac_codes_def)
qed

section \<open>Contig ids after traversal (traverse_debruijn_graph in dbjg_traversal.cpp)\<close>

text \<open>
  A contig: its id, its sequence and its depth. The depth is a \<open>double\<close> in the source; its
  type is left open here.
\<close>

record 'd Contig =
  ctg_id :: int
  ctg_seq :: string
  ctg_depth :: 'd

text \<open>
  Modelled from the spec: \<open>upcxx_utils::reduce_prefix\<close> with \<open>op_fast_add\<close> is not among the
  sources; the spec calls it a distributed prefix sum over the per-process contig counts. Rank
  \<open>r\<close> receives the sum of the counts of the ranks \<open>0..r\<close>, its own included, which is what the
  subtraction \<open>my_prefix - num_ctgs\<close> of the caller expects.
\<close>

definition reduce_prefix :: "nat list \<Rightarrow> nat \<Rightarrow> nat" where
  "reduce_prefix counts rank = sum_list (take (Suc rank) counts)"

text \<open>The loop \<open>it->id = my_counter++\<close> over the uutigs of one rank.\<close>

fun assign_ids :: "nat \<Rightarrow> 'd Contig list \<Rightarrow> 'd Contig list" where
  "assign_ids my_counter [] = []"
| "assign_ids my_counter (c # cs) = c\<lparr>ctg_id := int my_counter\<rparr> # assign_ids (Suc my_counter) cs"

text \<open>
  The id assignment of \<open>traverse_debruijn_graph\<close> on rank \<open>rank\<close>, given the uutigs of every
  rank, and on all ranks.
\<close>

definition assign_rank_ids :: "'d Contig list list \<Rightarrow> nat \<Rightarrow> 'd Contig list" where
  "assign_rank_ids all_uutigs rank =
     (let my_uutigs = all_uutigs ! rank;
          num_ctgs = length my_uutigs;
          my_prefix = reduce_prefix (map length all_uutigs) rank
      in assign_ids (my_prefix - num_ctgs) my_uutigs)"

definition assign_all_ids :: "'d Contig list list \<Rightarrow> 'd Contig list list" where
  "assign_all_ids all_uutigs = map (assign_rank_ids all_uutigs) [0..<length all_uutigs]"

lemma assign_ids_ids: "map ctg_id (assign_ids start cs) = map int [start..<start + length cs]"
proof (induction cs arbitrary: start)
  case Nil
  then show ?case by simp
next
  case (Cons c cs)
  have "[start..<start + length (c # cs)] = start # [Suc start..<Suc start + length cs]"
    by (subst upt_rec) simp
  with Cons[of "Suc start"] show ?case by simp
qed

lemma assign_ids_rest:
  "map ctg_seq (assign_ids start cs) = map ctg_seq cs"
  "map ctg_depth (assign_ids start cs) = map ctg_depth cs"
  by (induction cs arbitrary: start) simp_all

lemma exclusive_prefix:
  assumes "r < length counts"
  shows "reduce_prefix counts r - counts ! r = sum_list (take r counts)"
  using assms by (simp add: reduce_prefix_def take_Suc_conv_app_nth)

lemma assign_rank_ids_ids:
  assumes "r < length all_uutigs"
  shows "map ctg_id (assign_rank_ids all_uutigs r) =
           map int [sum_list (take r (map length all_uutigs))..<sum_list (take (Suc r) (map length all_uutigs))]"
proof -
  let ?counts = "map length all_uutigs"
  have r: "r < length ?counts" using assms by simp
  have "reduce_prefix ?counts r - length (all_uutigs ! r) = sum_list (take r ?counts)"
    using exclusive_prefix[OF r] assms by simp
  moreover have "sum_list (take (Suc r) ?counts) = sum_list (take r ?counts) + length (all_uutigs ! r)"
    using assms by (simp add: take_Suc_conv_app_nth)
  ultimately show ?thesis
    by (simp add: assign_rank_ids_def Let_def assign_ids_ids del: take_map)
qed

lemma concat_blocks:
  "n \<le> length counts \<Longrightarrow>
   concat (map (\<lambda>r. [sum_list (take r counts)..<sum_list (take (Suc r) counts)]) [0..<n]) =
     [0..<sum_list (take n counts)]"
proof (induction n)
  case 0
  then show ?case by simp
next
  case (Suc n)
  then have e: "sum_list (take (Suc n) counts) = sum_list (take n counts) + counts ! n"
    by (simp add: take_Suc_conv_app_nth)
  have "[0..<sum_list (take n counts) + counts ! n] =
      [0..<sum_list (take n counts)] @ [sum_list (take n counts)..<sum_list (take n counts) + counts ! n]"
    by (rule upt_add_eq_append) simp
  with Suc e show ?case by simp
qed

text \<open>
  Claim C8: after the id assignment the ids over all ranks, in rank order, are
  \<open>0, 1, ..., N - 1\<close>, where \<open>N\<close> is the total number of contigs: the set of ids is
  \<open>{0..N-1}\<close>, no id occurs twice, and the ids of rank \<open>r\<close> are the block of consecutive numbers
  that starts at the sum of the counts of the ranks before \<open>r\<close>.
\<close>

theorem uutig_ids_are_prefix_sum_blocks:
  "map ctg_id (concat (assign_all_ids all_uutigs)) = map int [0..<sum_list (map length all_uutigs)] \<and>
   set (map ctg_id (concat (assign_all_ids all_uutigs))) = int ` {0..<sum_list (map length all_uutigs)} \<and>
   distinct (map ctg_id (concat (assign_all_ids all_uutigs))) \<and>
   map (map ctg_id) (assign_all_ids all_uutigs) =
     map (\<lambda>r. map int [sum_list (take r (map length all_uutigs))..<
                        sum_list (take r (map length all_uutigs)) + length (all_uutigs ! r)])
       [0..<length all_uutigs]"
proof -
  let ?counts = "map length all_uutigs"
  let ?N = "sum_list ?counts"
  have blocks: "map (map ctg_id) (assign_all_ids all_uutigs) =
      map (\<lambda>r. map int [sum_list (take r ?counts)..<sum_list (take (Suc r) ?counts)]) [0..<length all_uutigs]"
    unfolding assign_all_ids_def map_map
    by (rule map_cong[OF refl]) (simp only: comp_def assign_rank_ids_ids atLeastLessThan_iff set_upt)
  have "map ctg_id (concat (assign_all_ids all_uutigs)) = concat (map (map ctg_id) (assign_all_ids all_uutigs))"
    by (simp add: map_concat)
  also have "\<dots> = map int (concat (map (\<lambda>r. [sum_list (take r ?counts)..<sum_list (take (Suc r) ?counts)]) [0..<length all_uutigs]))"
    unfolding blocks by (simp add: map_concat comp_def)
  also have "\<dots> = map int [0..<?N]"
    using concat_blocks[of "length all_uutigs" ?counts] by simp
  finally have all: "map ctg_id (concat (assign_all_ids all_uutigs)) = map int [0..<?N]" .
  have suc: "\<And>r. r < length all_uutigs \<Longrightarrow>
      sum_list (take (Suc r) ?counts) = sum_list (take r ?counts) + length (all_uutigs ! r)"
    by (simp add: take_Suc_conv_app_nth)
  have blocks': "map (map ctg_id) (assign_all_ids all_uutigs) =
     map (\<lambda>r. map int [sum_list (take r ?counts)..<sum_list (take r ?counts) + length (all_uutigs ! r)])
       [0..<length all_uutigs]"
    unfolding blocks
    by (rule map_cong[OF refl]) (simp only: suc atLeastLessThan_iff set_upt)
  have "distinct (map int [0..<?N])" by (simp add: distinct_map)
  then have d: "distinct (map ctg_id (concat (assign_all_ids all_uutigs)))"
    by (simp only: all)
  have s: "set (map ctg_id (concat (assign_all_ids all_uutigs))) = int ` {0..<?N}"
    by (simp only: all set_map set_upt)
  from all s d blocks' show ?thesis by blast
qed

section \<open>De Bruijn graph traversal: walks (dbjg_traversal.cpp)\<close>

text \<open>
  The direction of a walk and the status of a step, as the enumerations of the source.
  \<open>StepInfo\<close> is constructed with \<open>walk_status{}\<close>, the value 0, which is none of the
  enumerators: it is \<open>UNSET\<close> here.
\<close>

datatype Dirn = LEFT | RIGHT | NONE

datatype WalkStatus = UNSET | RUNNING | DEADEND | FORK | CONFLICT | REPEAT | VISITED

text \<open>
  A global pointer to a fragment: the rank that owns it (\<open>where()\<close>) and its local address. A
  \<open>global_ptr<FragElem>\<close> is a \<open>gptr option\<close>, the null pointer being \<open>None\<close>.
\<close>

datatype gptr = Gptr (where_rank: nat) (local_addr: nat)

text \<open>
  Modelled from the spec: \<open>KmerCounts\<close> is declared in \<open>kmer_dht.hpp\<close>, which is not among the
  sources. The traversal uses the occurrence count (16 bits), the two extension characters and the
  fragment owner pointer. The shard of the k-mer index that a rank owns is an association list
  from k-mers to their counts; \<open>get_local_kmer_counts\<close> is \<open>map_of\<close>.
\<close>

record KmerCounts =
  kc_count :: nat
  kc_left :: char
  kc_right :: char
  uutig_frag :: "gptr option"

type_synonym kmer_shard = "(string \<times> KmerCounts) list"

text \<open>
  \<open>StepInfo\<close>, the record a step returns, and its constructor. \<open>sum_depths\<close> is a \<open>uint32_t\<close>.
\<close>

record StepInfo =
  walk_status :: WalkStatus
  step_sum_depths :: nat
  prev_ext :: char
  next_ext :: char
  visited_frag_elem_gptr :: "gptr option"
  step_uutig :: string
  step_kmer :: string

definition StepInfo_new :: "string \<Rightarrow> char \<Rightarrow> char \<Rightarrow> StepInfo" where
  "StepInfo_new kmer prev_ext' next_ext' =
     \<lparr>walk_status = UNSET, step_sum_depths = 0, prev_ext = prev_ext', next_ext = next_ext',
      visited_frag_elem_gptr = None, step_uutig = [], step_kmer = kmer\<rparr>"

text \<open>
  \<open>comp_nucleotide\<close> of utils.cpp.
\<close>

definition comp_nucleotide :: "char \<Rightarrow> error + char" where
  "comp_nucleotide ch =
     (if ch = CHR ''A'' then Inr CHR ''T''
      else if ch = CHR ''C'' then Inr CHR ''G''
      else if ch = CHR ''G'' then Inr CHR ''C''
      else if ch = CHR ''T'' then Inr CHR ''A''
      else if ch = CHR ''N'' then Inr CHR ''N''
      else if ch = CHR ''0'' then Inr CHR ''0''
      else if ch \<in> iupac_codes then Inr CHR ''N''
      else Inl (Die_illegal_char ch))"

text \<open>
  Modelled from the spec: the class \<open>Kmer\<close> is declared in \<open>kmer.hpp\<close>, which is not among the
  sources. A k-mer is a word over A, C, G, T, here the string of its bases;
  \<open>revcomp\<close> is the reverse complement, \<open>front\<close> and \<open>back\<close> are the first and the last base,
  \<open>forward_base\<close> and \<open>backward_base\<close> shift the k-mer by one base, and the order \<open><\<close> is the
  lexicographic one (the canonical k-mer is the lexicographically smaller of a k-mer and its
  reverse complement). A k-mer has at least one base.
\<close>

definition kmer_comp :: "char \<Rightarrow> char" where
  "kmer_comp ch =
     (if ch = CHR ''A'' then CHR ''T''
      else if ch = CHR ''C'' then CHR ''G''
      else if ch = CHR ''G'' then CHR ''C''
      else if ch = CHR ''T'' then CHR ''A''
      else ch)"

definition kmer_revcomp :: "string \<Rightarrow> string" where
  "kmer_revcomp kmer = rev (map kmer_comp kmer)"

definition kmer_front :: "string \<Rightarrow> char" where
  "kmer_front kmer = (case kmer of [] \<Rightarrow> CHR 0x00 | c # _ \<Rightarrow> c)"

definition kmer_back :: "string \<Rightarrow> char" where
  "kmer_back kmer = (case rev kmer of [] \<Rightarrow> CHR 0x00 | c # _ \<Rightarrow> c)"

definition forward_base :: "string \<Rightarrow> char \<Rightarrow> string" where
  "forward_base kmer ch = tl kmer @ [ch]"

definition backward_base :: "string \<Rightarrow> char \<Rightarrow> string" where
  "backward_base kmer ch = ch # butlast kmer"

text \<open>
  Modelled from the spec: \<open>KmerDHT::get_kmer_target_rank\<close> is not among the sources; the home of
  a k-mer is a stable hash of its canonical form modulo the number of processes. The hash is a
  parameter.
\<close>

definition get_kmer_target_rank :: "(string \<Rightarrow> nat) \<Rightarrow> nat \<Rightarrow> string \<Rightarrow> nat" where
  "get_kmer_target_rank hash rank_n kmer = hash kmer mod rank_n"

text \<open>
  The canonical form of a k-mer and the flag \<open>is_rc\<close>, as both \<open>get_next_step\<close> and
  \<open>traverse_dirn\<close> compute them: \<open>if (kmer_rc < kmer) { kmer.swap(kmer_rc); is_rc = true; }\<close>.
\<close>

definition canonical_kmer :: "string \<Rightarrow> string \<times> bool" where
  "canonical_kmer kmer =
     (let kmer_rc = kmer_revcomp kmer in if kmer_rc < kmer then (kmer_rc, True) else (kmer, False))"

text \<open>
  One turn of a \<open>while (true)\<close> loop either leaves the loop with a result or goes round again
  with a new state.
\<close>

datatype ('a, 'b) loop_step = Done 'a | Again 'b

text \<open>
  The extensions as the walk sees them: complemented and swapped when the k-mer is viewed
  reverse-complemented. \<open>comp_nucleotide\<close> is called on \<open>left\<close> first.
\<close>

definition oriented_exts :: "bool \<Rightarrow> char \<Rightarrow> char \<Rightarrow> error + char \<times> char" where
  "oriented_exts is_rc left right =
     (if is_rc then
        (case comp_nucleotide left of
           Inl e \<Rightarrow> Inl e
         | Inr left' \<Rightarrow>
             (case comp_nucleotide right of
                Inl e \<Rightarrow> Inl e
              | Inr right' \<Rightarrow> Inr (right', left')))
      else Inr (left, right))"

text \<open>
  The end of the loop body of \<open>get_next_step\<close>, from \<open>// mark as visited\<close> on: the k-mer is
  claimed for the fragment, the base is appended, the k-mer is advanced by one base, and the
  loop goes on when the next canonical k-mer lives on this rank. On leaving the loop
  \<open>step_info.kmer\<close> is the advanced k-mer, not its canonical form.
\<close>

definition claim_kmer ::
  "(string \<Rightarrow> nat) \<Rightarrow> nat \<Rightarrow> nat \<Rightarrow> Dirn \<Rightarrow> gptr option \<Rightarrow> kmer_shard \<Rightarrow> StepInfo \<Rightarrow> bool \<Rightarrow>
   KmerCounts \<Rightarrow> char \<Rightarrow> char \<Rightarrow>
   (StepInfo \<times> kmer_shard, StepInfo \<times> kmer_shard \<times> bool) loop_step" where
  "claim_kmer hash rank_n rank_me dirn frag_elem_gptr shard step_info is_rc kmer_counts left right =
     (let shard' = AList.update (step_kmer step_info) (kmer_counts\<lparr>uutig_frag := frag_elem_gptr\<rparr>) shard;
          uutig' = step_uutig step_info @ [next_ext step_info];
          next_ext' = (if dirn = LEFT then left else right);
          kmer1 = (if is_rc then kmer_revcomp (step_kmer step_info) else step_kmer step_info);
          prev_ext' = (if dirn = LEFT then kmer_back kmer1 else kmer_front kmer1);
          kmer2 = (if dirn = LEFT then backward_base kmer1 next_ext' else forward_base kmer1 next_ext');
          step_info' = step_info\<lparr>walk_status := RUNNING,
            step_sum_depths := (step_sum_depths step_info + kc_count kmer_counts) mod 2 ^ 32,
            prev_ext := prev_ext', next_ext := next_ext', step_uutig := uutig', step_kmer := kmer2\<rparr>;
          (kmer, is_rc') = canonical_kmer kmer2;
          target_rank = get_kmer_target_rank hash rank_n kmer
      in if target_rank \<noteq> rank_me then Done (step_info', shard')
         else Again (step_info'\<lparr>step_kmer := kmer\<rparr>, shard', is_rc'))"

text \<open>
  The loop body of \<open>get_next_step\<close>, in the order of the source.
\<close>

definition get_next_step_body ::
  "(string \<Rightarrow> nat) \<Rightarrow> nat \<Rightarrow> nat \<Rightarrow> Dirn \<Rightarrow> gptr option \<Rightarrow> kmer_shard \<Rightarrow> StepInfo \<Rightarrow> bool \<Rightarrow> bool \<Rightarrow>
   error + (StepInfo \<times> kmer_shard, StepInfo \<times> kmer_shard \<times> bool) loop_step" where
  "get_next_step_body hash rank_n rank_me dirn frag_elem_gptr shard step_info revisit_allowed is_rc =
     (case map_of shard (step_kmer step_info) of
        None \<Rightarrow> Inr (Done (step_info\<lparr>walk_status := DEADEND\<rparr>, shard))
      | Some kmer_counts \<Rightarrow>
          if kc_left kmer_counts = CHR ''X'' \<or> kc_right kmer_counts = CHR ''X''
          then Inr (Done (step_info\<lparr>walk_status := DEADEND\<rparr>, shard))
          else if kc_left kmer_counts = CHR ''F'' \<or> kc_right kmer_counts = CHR ''F''
          then Inr (Done (step_info\<lparr>walk_status := FORK\<rparr>, shard))
          else
            (case oriented_exts is_rc (kc_left kmer_counts) (kc_right kmer_counts) of
               Inl e \<Rightarrow> Inl e
             | Inr (left, right) \<Rightarrow>
                 if prev_ext step_info \<noteq> CHR 0x00 \<and>
                    ((dirn = LEFT \<and> prev_ext step_info \<noteq> right) \<or>
                     (dirn = RIGHT \<and> prev_ext step_info \<noteq> left))
                 then Inr (Done (step_info\<lparr>walk_status := CONFLICT\<rparr>, shard))
                 else if uutig_frag kmer_counts \<noteq> None \<and> uutig_frag kmer_counts \<noteq> frag_elem_gptr
                 then Inr (Done (step_info\<lparr>walk_status := VISITED,
                                   visited_frag_elem_gptr := uutig_frag kmer_counts\<rparr>, shard))
                 else if uutig_frag kmer_counts = frag_elem_gptr \<and> \<not> revisit_allowed
                 then Inr (Done (step_info\<lparr>walk_status := REPEAT\<rparr>, shard))
                 else Inr (claim_kmer hash rank_n rank_me dirn frag_elem_gptr shard step_info is_rc
                             kmer_counts left right)))"

text \<open>
  The number of entries of a shard with no owner yet, and the measure of the loop: it decreases
  at every claim, since a claim either takes an entry that had no owner or uses up the one
  permitted revisit.
\<close>

definition unclaimed :: "kmer_shard \<Rightarrow> nat" where
  "unclaimed shard = length (filter (\<lambda>kv. uutig_frag (snd kv) = None) shard)"

definition walk_measure :: "kmer_shard \<Rightarrow> bool \<Rightarrow> nat" where
  "walk_measure shard revisit_allowed = unclaimed shard + (if revisit_allowed then 1 else 0)"

lemma unclaimed_update:
  "map_of shard k = Some kc \<Longrightarrow>
   unclaimed (AList.update k kc' shard) + (if uutig_frag kc = None then 1 else 0) =
     unclaimed shard + (if uutig_frag kc' = None then 1 else 0)"
  by (induction shard) (auto simp: unclaimed_def)

lemma claim_kmer_shard:
  "claim_kmer hash rank_n rank_me dirn tok shard si is_rc kc l r = Done (si', shard') \<or>
   claim_kmer hash rank_n rank_me dirn tok shard si is_rc kc l r = Again (si', shard', rc') \<Longrightarrow>
     shard' = AList.update (step_kmer si) (kc\<lparr>uutig_frag := tok\<rparr>) shard \<and> walk_status si' = RUNNING"
  by (auto simp: claim_kmer_def Let_def split: if_splits prod.splits)

lemma body_Again_measure:
  assumes "get_next_step_body hash rank_n rank_me dirn tok shard si revisit is_rc = Inr (Again (si', shard', rc'))"
  shows "walk_measure shard' False < walk_measure shard revisit"
proof -
  from assms obtain kc l r where kc: "map_of shard (step_kmer si) = Some kc"
    and nv: "\<not> (uutig_frag kc \<noteq> None \<and> uutig_frag kc \<noteq> tok)"
    and nr: "\<not> (uutig_frag kc = tok \<and> \<not> revisit)"
    and cl: "claim_kmer hash rank_n rank_me dirn tok shard si is_rc kc l r = Again (si', shard', rc')"
    by (auto simp: get_next_step_body_def split: option.splits if_splits sum.splits)
  from claim_kmer_shard[of hash rank_n rank_me dirn tok shard si is_rc kc l r si' shard' rc'] cl
  have sh: "shard' = AList.update (step_kmer si) (kc\<lparr>uutig_frag := tok\<rparr>) shard" by simp
  from unclaimed_update[OF kc, of "kc\<lparr>uutig_frag := tok\<rparr>"] nv nr
  show ?thesis unfolding sh walk_measure_def by (auto split: if_splits)
qed

text \<open>
  The loop of \<open>get_next_step\<close>; after the first claim \<open>revisit_allowed\<close> is false.
\<close>

function get_next_step_loop ::
  "(string \<Rightarrow> nat) \<Rightarrow> nat \<Rightarrow> nat \<Rightarrow> Dirn \<Rightarrow> gptr option \<Rightarrow> kmer_shard \<Rightarrow> StepInfo \<Rightarrow> bool \<Rightarrow> bool \<Rightarrow>
   error + StepInfo \<times> kmer_shard" where
  "get_next_step_loop hash rank_n rank_me dirn frag_elem_gptr shard step_info revisit_allowed is_rc =
     (case get_next_step_body hash rank_n rank_me dirn frag_elem_gptr shard step_info revisit_allowed is_rc of
        Inl e \<Rightarrow> Inl e
      | Inr (Done res) \<Rightarrow> Inr res
      | Inr (Again (step_info', shard', is_rc')) \<Rightarrow>
          get_next_step_loop hash rank_n rank_me dirn frag_elem_gptr shard' step_info' False is_rc')"
  by pat_completeness auto
termination
  by (relation "measure (\<lambda>(hash, rank_n, rank_me, dirn, tok, shard, si, revisit, is_rc). walk_measure shard revisit)")
    (auto simp: body_Again_measure)


text \<open>
  \<open>get_next_step\<close>, run on rank \<open>rank_me\<close> with the shard of that rank. It returns the step
  record and the shard with the claims made.
\<close>

definition get_next_step ::
  "(string \<Rightarrow> nat) \<Rightarrow> nat \<Rightarrow> nat \<Rightarrow> kmer_shard \<Rightarrow> string \<Rightarrow> Dirn \<Rightarrow> char \<Rightarrow> char \<Rightarrow> bool \<Rightarrow> bool \<Rightarrow>
   gptr option \<Rightarrow> error + StepInfo \<times> kmer_shard" where
  "get_next_step hash rank_n rank_me shard start_kmer dirn start_prev_ext start_next_ext
     revisit_allowed is_rc frag_elem_gptr =
     get_next_step_loop hash rank_n rank_me dirn frag_elem_gptr shard
       (StepInfo_new start_kmer start_prev_ext start_next_ext) revisit_allowed is_rc"

text \<open>
  \<open>WalkTermStats\<close> and its \<open>update\<close>, which is fatal on a status outside the five terminal ones.
\<close>

record WalkTermStats =
  num_deadends :: nat
  num_forks :: nat
  num_conflicts :: nat
  num_repeats :: nat
  num_visited :: nat

definition WalkTermStats_update :: "WalkTermStats \<Rightarrow> WalkStatus \<Rightarrow> error + WalkTermStats" where
  "WalkTermStats_update stats status =
     (case status of
        DEADEND \<Rightarrow> Inr (stats\<lparr>num_deadends := num_deadends stats + 1\<rparr>)
      | FORK \<Rightarrow> Inr (stats\<lparr>num_forks := num_forks stats + 1\<rparr>)
      | CONFLICT \<Rightarrow> Inr (stats\<lparr>num_conflicts := num_conflicts stats + 1\<rparr>)
      | REPEAT \<Rightarrow> Inr (stats\<lparr>num_repeats := num_repeats stats + 1\<rparr>)
      | VISITED \<Rightarrow> Inr (stats\<lparr>num_visited := num_visited stats + 1\<rparr>)
      | _ \<Rightarrow> Inl (Die ''Should never get here''))"

text \<open>
  What \<open>traverse_dirn\<close> leaves behind: the pointer it returns, the uutig and the sum of depths
  it updates through its reference parameters, the statistics and the index. \<open>end_status\<close> is
  the status the walk ended with (the source only counts it in the statistics).
\<close>

record WalkEnd =
  end_gptr :: "gptr option"
  end_uutig :: string
  end_sum_depths :: int
  end_status :: WalkStatus
  end_stats :: WalkTermStats
  end_dht :: "kmer_shard list"

text \<open>
  The index is the list of the shards of all ranks. The measure of the loop of
  \<open>traverse_dirn\<close> is the number of entries without owner over all shards, plus one while a
  revisit is permitted.
\<close>

definition dht_measure :: "kmer_shard list \<Rightarrow> bool \<Rightarrow> nat" where
  "dht_measure dht revisit_allowed =
     sum_list (map unclaimed dht) + (if revisit_allowed then 1 else 0)"

lemma body_Done_cases:
  assumes "get_next_step_body hash rank_n rank_me dirn tok shard si revisit is_rc = Inr (Done (si', shard'))"
  shows "(shard' = shard \<and> walk_status si' \<in> {DEADEND, FORK, CONFLICT, REPEAT, VISITED}) \<or>
         (walk_status si' = RUNNING \<and> walk_measure shard' False < walk_measure shard revisit)"
proof (cases "walk_status si' = RUNNING")
  case False
  with assms show ?thesis
    by (auto simp: get_next_step_body_def split: option.splits if_splits sum.splits
        dest: claim_kmer_shard[OF disjI1])
next
  case True
  with assms obtain kc l r where kc: "map_of shard (step_kmer si) = Some kc"
    and nv: "\<not> (uutig_frag kc \<noteq> None \<and> uutig_frag kc \<noteq> tok)"
    and nr: "\<not> (uutig_frag kc = tok \<and> \<not> revisit)"
    and cl: "claim_kmer hash rank_n rank_me dirn tok shard si is_rc kc l r = Done (si', shard')"
    by (auto simp: get_next_step_body_def split: option.splits if_splits sum.splits)
  from claim_kmer_shard[OF disjI1, OF cl]
  have sh: "shard' = AList.update (step_kmer si) (kc\<lparr>uutig_frag := tok\<rparr>) shard" by simp
  from unclaimed_update[OF kc, of "kc\<lparr>uutig_frag := tok\<rparr>"] nv nr
  have "walk_measure shard' False < walk_measure shard revisit"
    unfolding sh walk_measure_def by (auto split: if_splits)
  with True show ?thesis by simp
qed

lemma get_next_step_loop_measure:
  "get_next_step_loop hash rank_n rank_me dirn tok shard si revisit is_rc = Inr (si', shard') \<Longrightarrow>
     walk_status si' \<in> {RUNNING, DEADEND, FORK, CONFLICT, REPEAT, VISITED} \<and>
     walk_measure shard' False \<le> walk_measure shard revisit \<and>
     (walk_status si' = RUNNING \<longrightarrow> walk_measure shard' False < walk_measure shard revisit)"
proof (induction hash rank_n rank_me dirn tok shard si revisit is_rc rule: get_next_step_loop.induct)
  case (1 hash rank_n rank_me dirn tok shard si revisit is_rc)
  show ?case
  proof (cases "get_next_step_body hash rank_n rank_me dirn tok shard si revisit is_rc")
    case (Inl e)
    with 1(2) show ?thesis by simp
  next
    case (Inr st)
    show ?thesis
    proof (cases st)
      case (Done res)
      with 1(2) Inr have "get_next_step_body hash rank_n rank_me dirn tok shard si revisit is_rc =
          Inr (Done (si', shard'))" by simp
      from body_Done_cases[OF this] show ?thesis
        by (auto simp: walk_measure_def)
    next
      case (Again nxt)
      obtain si1 shard1 rc1 where nxt: "nxt = (si1, shard1, rc1)" by (cases nxt)
      have b: "get_next_step_body hash rank_n rank_me dirn tok shard si revisit is_rc =
          Inr (Again (si1, shard1, rc1))" using Inr Again nxt by simp
      have r: "get_next_step_loop hash rank_n rank_me dirn tok shard1 si1 False rc1 = Inr (si', shard')"
        using 1(2) b by simp
      from 1(1)[OF Inr Again nxt[symmetric] refl r] body_Again_measure[OF b]
      show ?thesis by auto
    qed
  qed
qed

lemma dht_measure_update:
  assumes "t < length dht"
  shows "sum_list (map unclaimed (dht[t := shard'])) + unclaimed (dht ! t) =
           sum_list (map unclaimed dht) + unclaimed shard'"
  using assms
proof (induction dht arbitrary: t)
  case Nil
  then show ?case by simp
next
  case (Cons a dht)
  then show ?case by (cases t) auto
qed

lemma traverse_step_measure:
  assumes "get_next_step hash rank_n t (dht ! t) kmer dirn p n revisit is_rc tok = Inr (si, shard')"
    and "walk_status si = RUNNING" and "t < length dht"
  shows "dht_measure (dht[t := shard']) False < dht_measure dht revisit"
proof -
  from get_next_step_loop_measure[OF assms(1)[unfolded get_next_step_def]] assms(2)
  have "walk_measure shard' False < walk_measure (dht ! t) revisit" by simp
  with dht_measure_update[OF assms(3), of shard'] show ?thesis
    by (auto simp: dht_measure_def walk_measure_def split: if_splits)
qed

text \<open>
  The loop of \<open>traverse_dirn\<close>. \<open>get_next_step\<close> runs on the home rank of the canonical k-mer,
  directly or by \<open>rpc\<close>, and the loop goes on while the status is \<open>RUNNING\<close>. The home rank is
  \<open>hash mod rank_n\<close>, below \<open>rank_n\<close> unless there is no process at all.
\<close>

function traverse_dirn_loop ::
  "(string \<Rightarrow> nat) \<Rightarrow> kmer_shard list \<Rightarrow> gptr option \<Rightarrow> Dirn \<Rightarrow> string \<Rightarrow> char \<Rightarrow> char \<Rightarrow> bool \<Rightarrow>
   string \<Rightarrow> int \<Rightarrow> WalkTermStats \<Rightarrow> error + WalkEnd" where
  "traverse_dirn_loop hash dht frag_elem_gptr dirn kmer prev_ext' next_ext' revisit_allowed
     uutig sum_depths walk_term_stats =
     (let next_kmer = fst (canonical_kmer kmer);
          is_rc = snd (canonical_kmer kmer);
          target_rank = get_kmer_target_rank hash (length dht) next_kmer
      in if \<not> target_rank < length dht then Inl Out_of_range
         else
           (case get_next_step hash (length dht) target_rank (dht ! target_rank) next_kmer dirn
                   prev_ext' next_ext' revisit_allowed is_rc frag_elem_gptr of
              Inl e \<Rightarrow> Inl e
            | Inr (step_info, shard') \<Rightarrow>
                if walk_status step_info \<noteq> RUNNING then
                  (case WalkTermStats_update walk_term_stats (walk_status step_info) of
                     Inl e \<Rightarrow> Inl e
                   | Inr stats' \<Rightarrow>
                       Inr \<lparr>end_gptr = visited_frag_elem_gptr step_info,
                            end_uutig = (if dirn = LEFT then rev (uutig @ step_uutig step_info)
                                         else uutig @ step_uutig step_info),
                            end_sum_depths = sum_depths + int (step_sum_depths step_info),
                            end_status = walk_status step_info,
                            end_stats = stats',
                            end_dht = dht[target_rank := shard']\<rparr>)
                else
                  traverse_dirn_loop hash (dht[target_rank := shard']) frag_elem_gptr dirn
                    (step_kmer step_info) (prev_ext step_info) (next_ext step_info) False
                    (uutig @ step_uutig step_info) (sum_depths + int (step_sum_depths step_info))
                    walk_term_stats))"
  by pat_completeness auto
termination
proof (relation "measure (\<lambda>(hash, dht, tok, dirn, kmer, p, n, revisit, uutig, sum_depths, stats).
    dht_measure dht revisit)", goal_cases)
  case 1
  show ?case by simp
next
  case (2 hash dht tok dirn kmer p n revisit uutig sum_depths stats next_kmer is_rc target_rank res step_info shard')
  then show ?case
    using traverse_step_measure[of hash "length dht" target_rank dht next_kmer dirn p n revisit is_rc tok step_info shard']
    by simp
qed

text \<open>
  \<open>traverse_dirn\<close>: the walk in one direction from a start k-mer.
\<close>

definition traverse_dirn ::
  "(string \<Rightarrow> nat) \<Rightarrow> kmer_shard list \<Rightarrow> string \<Rightarrow> gptr option \<Rightarrow> Dirn \<Rightarrow> string \<Rightarrow> int \<Rightarrow>
   WalkTermStats \<Rightarrow> error + WalkEnd" where
  "traverse_dirn hash dht kmer frag_elem_gptr dirn uutig sum_depths walk_term_stats =
     traverse_dirn_loop hash dht frag_elem_gptr dirn kmer (CHR 0x00)
       (if dirn = LEFT then kmer_front kmer else kmer_back kmer)
       (if dirn = LEFT then False else True)
       (if dirn = RIGHT then uutig @ take (length kmer - 2) (drop 1 kmer) else uutig)
       sum_depths walk_term_stats"

text \<open>
  Modelled from the spec: the index after counting is built by code that is not among the
  sources. For scenario 3 of the spec (k = 4, the read \<open>ACGTACGTACGT\<close>) the canonical k-mers are
  \<open>ACGT\<close> (3 occurrences, preceded by T, followed by A), \<open>CGTA\<close> (4 occurrences, counting those of
  its reverse complement \<open>TACG\<close>; preceded by A, followed by C) and \<open>GTAC\<close> (2 occurrences,
  preceded by C, followed by G); each extension is the only base ever seen on its side.
  \<open>claimed_cycle_shard\<close> is the same index with every k-mer owned by the fragment at
  \<open>Gptr 0 0\<close>.
\<close>

definition cycle_shard :: kmer_shard where
  "cycle_shard =
     [(''ACGT'', \<lparr>kc_count = 3, kc_left = CHR ''T'', kc_right = CHR ''A'', uutig_frag = None\<rparr>),
      (''CGTA'', \<lparr>kc_count = 4, kc_left = CHR ''A'', kc_right = CHR ''C'', uutig_frag = None\<rparr>),
      (''GTAC'', \<lparr>kc_count = 2, kc_left = CHR ''C'', kc_right = CHR ''G'', uutig_frag = None\<rparr>)]"


definition no_stats :: WalkTermStats where
  "no_stats = \<lparr>num_deadends = 0, num_forks = 0, num_conflicts = 0, num_repeats = 0, num_visited = 0\<rparr>"

lemmas walk_eval = traverse_dirn_def get_next_step_def
      get_next_step_body_def claim_kmer_def canonical_kmer_def kmer_revcomp_def kmer_comp_def
      get_kmer_target_rank_def StepInfo_new_def oriented_exts_def comp_nucleotide_def
      kmer_front_def kmer_back_def backward_base_def forward_base_def WalkTermStats_update_def
      Let_def

















declare traverse_dirn_loop.simps [simp del]







lemma kmer_comp_involution: "kmer_comp (kmer_comp c) = c"
  by (simp add: kmer_comp_def)

lemma kmer_revcomp_involution: "kmer_revcomp (kmer_revcomp kmer) = kmer"
  by (simp add: kmer_revcomp_def rev_map comp_def kmer_comp_involution)

text \<open>
  Cycles. A base is one of A, C, G, T.
\<close>

definition is_base :: "char \<Rightarrow> bool" where
  "is_base c \<longleftrightarrow> c \<in> {CHR ''A'', CHR ''C'', CHR ''G'', CHR ''T''}"

text \<open>
  What a walk that holds the k-mer \<open>kmer\<close> (in its own orientation) finds in the index: the
  counts of the canonical form at its home rank, and the two extensions as the walk sees them,
  exactly as \<open>traverse_dirn\<close> and \<open>get_next_step\<close> look them up and orient them.
\<close>

definition kmer_view ::
  "(string \<Rightarrow> nat) \<Rightarrow> kmer_shard list \<Rightarrow> string \<Rightarrow> (KmerCounts \<times> char \<times> char) option" where
  "kmer_view hash dht kmer =
     (case map_of (dht ! get_kmer_target_rank hash (length dht) (fst (canonical_kmer kmer)))
             (fst (canonical_kmer kmer)) of
        None \<Rightarrow> None
      | Some kmer_counts \<Rightarrow>
          (case oriented_exts (snd (canonical_kmer kmer)) (kc_left kmer_counts) (kc_right kmer_counts) of
             Inl e \<Rightarrow> None
           | Inr exts \<Rightarrow> Some (kmer_counts, fst exts, snd exts)))"

text \<open>
  The k-mer lies on a cycle for the walk of the fragment \<open>tok\<close>: it is in the index with a
  single base on each side, it has no owner or is owned by \<open>tok\<close>, and the k-mers that the walk
  steps to on the left and on the right are in the index and name, as their extension on the
  side the walk comes from, the base that the step drops.
\<close>

definition on_cycle :: "(string \<Rightarrow> nat) \<Rightarrow> kmer_shard list \<Rightarrow> gptr option \<Rightarrow> string \<Rightarrow> bool" where
  "on_cycle hash dht tok kmer =
     (case kmer_view hash dht kmer of
        None \<Rightarrow> False
      | Some (kmer_counts, left, right) \<Rightarrow>
          is_base (kc_left kmer_counts) \<and> is_base (kc_right kmer_counts) \<and>
          (uutig_frag kmer_counts = None \<or> uutig_frag kmer_counts = tok) \<and>
          (case kmer_view hash dht (backward_base kmer left) of
             None \<Rightarrow> False
           | Some (kc', left', right') \<Rightarrow> right' = kmer_back kmer) \<and>
          (case kmer_view hash dht (forward_base kmer right) of
             None \<Rightarrow> False
           | Some (kc', left', right') \<Rightarrow> left' = kmer_front kmer))"

text \<open>
  The k-mers of the index form cycles: there is at least one rank, and every stored k-mer lies
  on a cycle in both orientations in which a walk can hold it.
\<close>

definition cyclic_dht :: "(string \<Rightarrow> nat) \<Rightarrow> kmer_shard list \<Rightarrow> gptr option \<Rightarrow> bool" where
  "cyclic_dht hash dht tok =
     (dht \<noteq> [] \<and>
      list_all (\<lambda>shard.
         list_all (\<lambda>kv. on_cycle hash dht tok (fst kv) \<and>
                         on_cycle hash dht tok (kmer_revcomp (fst kv))) shard) dht)"






















lemmas cycle_eval = cyclic_dht_def on_cycle_def kmer_view_def is_base_def
      canonical_kmer_def kmer_revcomp_def kmer_comp_def
      get_kmer_target_rank_def oriented_exts_def comp_nucleotide_def
      kmer_front_def kmer_back_def backward_base_def forward_base_def Let_def

lemma cyclic_cycle_shard: "cyclic_dht (\<lambda>_. 0) [cycle_shard] (Some (Gptr 0 0))"
  by (simp add: cycle_eval cycle_shard_def)




text \<open>
  A shard with one k-mer for each terminal status.
\<close>

definition status_shard :: kmer_shard where
  "status_shard =
     [(''AAAA'', \<lparr>kc_count = 2, kc_left = CHR ''X'', kc_right = CHR ''F'', uutig_frag = None\<rparr>),
      (''AAAC'', \<lparr>kc_count = 2, kc_left = CHR ''A'', kc_right = CHR ''F'', uutig_frag = None\<rparr>),
      (''ACGT'', \<lparr>kc_count = 3, kc_left = CHR ''T'', kc_right = CHR ''A'', uutig_frag = None\<rparr>),
      (''CGTA'', \<lparr>kc_count = 4, kc_left = CHR ''A'', kc_right = CHR ''C'', uutig_frag = Some (Gptr 1 7)\<rparr>),
      (''GTAC'', \<lparr>kc_count = 2, kc_left = CHR ''C'', kc_right = CHR ''G'', uutig_frag = Some (Gptr 0 0)\<rparr>)]"

text \<open>
  Claim C2. The checks of \<open>get_next_step\<close> on the k-mer it is called with, in their order: an
  absent k-mer or an extension X gives DEADEND; otherwise an extension F gives FORK (both before
  the extensions are oriented, so whatever \<open>is_rc\<close> is); otherwise, with a previous extension
  given, a stored extension on the entering side (the right one for a walk to the left, the left
  one for a walk to the right, after orientation) that differs from it gives CONFLICT; otherwise
  an owner that is set and is not the token gives VISITED and returns the owner; otherwise an
  owner equal to the token, with no revisit permitted, gives REPEAT. In each case the index is
  left unchanged.
\<close>

theorem get_next_step_terminal_statuses:
  "(map_of shard kmer = None \<longrightarrow>
      get_next_step hash rank_n rank_me shard kmer dirn prev nxt revisit is_rc tok =
        Inr ((StepInfo_new kmer prev nxt)\<lparr>walk_status := DEADEND\<rparr>, shard)) \<and>
   (map_of shard kmer = Some kc \<and> (kc_left kc = CHR ''X'' \<or> kc_right kc = CHR ''X'') \<longrightarrow>
      get_next_step hash rank_n rank_me shard kmer dirn prev nxt revisit is_rc tok =
        Inr ((StepInfo_new kmer prev nxt)\<lparr>walk_status := DEADEND\<rparr>, shard)) \<and>
   (map_of shard kmer = Some kc \<and> kc_left kc \<noteq> CHR ''X'' \<and> kc_right kc \<noteq> CHR ''X'' \<and>
    (kc_left kc = CHR ''F'' \<or> kc_right kc = CHR ''F'') \<longrightarrow>
      get_next_step hash rank_n rank_me shard kmer dirn prev nxt revisit is_rc tok =
        Inr ((StepInfo_new kmer prev nxt)\<lparr>walk_status := FORK\<rparr>, shard)) \<and>
   (map_of shard kmer = Some kc \<and> kc_left kc \<notin> {CHR ''X'', CHR ''F''} \<and>
    kc_right kc \<notin> {CHR ''X'', CHR ''F''} \<and>
    oriented_exts is_rc (kc_left kc) (kc_right kc) = Inr (l, r) \<and>
    prev \<noteq> CHR 0x00 \<and> ((dirn = LEFT \<and> prev \<noteq> r) \<or> (dirn = RIGHT \<and> prev \<noteq> l)) \<longrightarrow>
      get_next_step hash rank_n rank_me shard kmer dirn prev nxt revisit is_rc tok =
        Inr ((StepInfo_new kmer prev nxt)\<lparr>walk_status := CONFLICT\<rparr>, shard)) \<and>
   (map_of shard kmer = Some kc \<and> kc_left kc \<notin> {CHR ''X'', CHR ''F''} \<and>
    kc_right kc \<notin> {CHR ''X'', CHR ''F''} \<and>
    oriented_exts is_rc (kc_left kc) (kc_right kc) = Inr (l, r) \<and>
    \<not> (prev \<noteq> CHR 0x00 \<and> ((dirn = LEFT \<and> prev \<noteq> r) \<or> (dirn = RIGHT \<and> prev \<noteq> l))) \<and>
    uutig_frag kc = Some g \<and> Some g \<noteq> tok \<longrightarrow>
      get_next_step hash rank_n rank_me shard kmer dirn prev nxt revisit is_rc tok =
        Inr ((StepInfo_new kmer prev nxt)\<lparr>walk_status := VISITED,
               visited_frag_elem_gptr := Some g\<rparr>, shard)) \<and>
   (map_of shard kmer = Some kc \<and> kc_left kc \<notin> {CHR ''X'', CHR ''F''} \<and>
    kc_right kc \<notin> {CHR ''X'', CHR ''F''} \<and>
    oriented_exts is_rc (kc_left kc) (kc_right kc) = Inr (l, r) \<and>
    \<not> (prev \<noteq> CHR 0x00 \<and> ((dirn = LEFT \<and> prev \<noteq> r) \<or> (dirn = RIGHT \<and> prev \<noteq> l))) \<and>
    uutig_frag kc = tok \<and> \<not> revisit \<longrightarrow>
      get_next_step hash rank_n rank_me shard kmer dirn prev nxt revisit is_rc tok =
        Inr ((StepInfo_new kmer prev nxt)\<lparr>walk_status := REPEAT\<rparr>, shard))"
  by (auto simp: get_next_step_def get_next_step_body_def StepInfo_new_def)


lemma status_shard_lookup:
  "map_of status_shard ''TTTT'' = None"
  "map_of status_shard ''AAAA'' = Some \<lparr>kc_count = 2, kc_left = CHR ''X'', kc_right = CHR ''F'', uutig_frag = None\<rparr>"
  "map_of status_shard ''AAAC'' = Some \<lparr>kc_count = 2, kc_left = CHR ''A'', kc_right = CHR ''F'', uutig_frag = None\<rparr>"
  "map_of status_shard ''ACGT'' = Some \<lparr>kc_count = 3, kc_left = CHR ''T'', kc_right = CHR ''A'', uutig_frag = None\<rparr>"
  "map_of status_shard ''CGTA'' = Some \<lparr>kc_count = 4, kc_left = CHR ''A'', kc_right = CHR ''C'', uutig_frag = Some (Gptr 1 7)\<rparr>"
  "map_of status_shard ''GTAC'' = Some \<lparr>kc_count = 2, kc_left = CHR ''C'', kc_right = CHR ''G'', uutig_frag = Some (Gptr 0 0)\<rparr>"
  by (simp_all add: status_shard_def)

text \<open>
  The theorem of claim C2 on \<open>status_shard\<close>, once for each of its six cases.
\<close>

theorem get_next_step_terminal_statuses_witness:
  "map_of status_shard ''TTTT'' = None \<and>
   walk_status (fst (projr (get_next_step (\<lambda>_. 0) 1 0 status_shard ''TTTT'' LEFT (CHR 0x00) CHR ''T''
      False False (Some (Gptr 0 0))))) = DEADEND \<and>
   walk_status (fst (projr (get_next_step (\<lambda>_. 0) 1 0 status_shard ''AAAA'' LEFT (CHR 0x00) CHR ''A''
      False False (Some (Gptr 0 0))))) = DEADEND \<and>
   walk_status (fst (projr (get_next_step (\<lambda>_. 0) 1 0 status_shard ''AAAC'' LEFT (CHR 0x00) CHR ''A''
      False True (Some (Gptr 0 0))))) = FORK \<and>
   walk_status (fst (projr (get_next_step (\<lambda>_. 0) 1 0 status_shard ''ACGT'' LEFT CHR ''G'' CHR ''T''
      False False (Some (Gptr 0 0))))) = CONFLICT \<and>
   get_next_step (\<lambda>_. 0) 1 0 status_shard ''CGTA'' LEFT CHR ''C'' CHR ''A'' False False (Some (Gptr 0 0)) =
     Inr ((StepInfo_new ''CGTA'' CHR ''C'' CHR ''A'')\<lparr>walk_status := VISITED,
            visited_frag_elem_gptr := Some (Gptr 1 7)\<rparr>, status_shard) \<and>
   walk_status (fst (projr (get_next_step (\<lambda>_. 0) 1 0 status_shard ''GTAC'' RIGHT CHR ''C'' CHR ''G''
      False False (Some (Gptr 0 0))))) = REPEAT"
proof -
  note t = get_next_step_terminal_statuses
  have 1: "get_next_step (\<lambda>_. 0) 1 0 status_shard ''TTTT'' LEFT (CHR 0x00) CHR ''T'' False False (Some (Gptr 0 0)) =
      Inr ((StepInfo_new ''TTTT'' (CHR 0x00) CHR ''T'')\<lparr>walk_status := DEADEND\<rparr>, status_shard)"
    using t [where shard = status_shard and kmer = "''TTTT''", THEN conjunct1]
    by (simp add: status_shard_lookup)
  have 2: "get_next_step (\<lambda>_. 0) 1 0 status_shard ''AAAA'' LEFT (CHR 0x00) CHR ''A'' False False (Some (Gptr 0 0)) =
      Inr ((StepInfo_new ''AAAA'' (CHR 0x00) CHR ''A'')\<lparr>walk_status := DEADEND\<rparr>, status_shard)"
    using t [where shard = status_shard and kmer = "''AAAA''"
        and kc = "\<lparr>kc_count = 2, kc_left = CHR ''X'', kc_right = CHR ''F'', uutig_frag = None\<rparr>",
        THEN conjunct2, THEN conjunct1]
    by (simp add: status_shard_lookup)
  have 3: "get_next_step (\<lambda>_. 0) 1 0 status_shard ''AAAC'' LEFT (CHR 0x00) CHR ''A'' False True (Some (Gptr 0 0)) =
      Inr ((StepInfo_new ''AAAC'' (CHR 0x00) CHR ''A'')\<lparr>walk_status := FORK\<rparr>, status_shard)"
    using t [where shard = status_shard and kmer = "''AAAC''"
        and kc = "\<lparr>kc_count = 2, kc_left = CHR ''A'', kc_right = CHR ''F'', uutig_frag = None\<rparr>",
        THEN conjunct2, THEN conjunct2, THEN conjunct1]
    by (simp add: status_shard_lookup)
  have 4: "get_next_step (\<lambda>_. 0) 1 0 status_shard ''ACGT'' LEFT CHR ''G'' CHR ''T'' False False (Some (Gptr 0 0)) =
      Inr ((StepInfo_new ''ACGT'' CHR ''G'' CHR ''T'')\<lparr>walk_status := CONFLICT\<rparr>, status_shard)"
    using t [where shard = status_shard and kmer = "''ACGT''" and is_rc = False
        and kc = "\<lparr>kc_count = 3, kc_left = CHR ''T'', kc_right = CHR ''A'', uutig_frag = None\<rparr>"
        and l = "CHR ''T''" and r = "CHR ''A''" and prev = "CHR ''G''" and dirn = LEFT,
        THEN conjunct2, THEN conjunct2, THEN conjunct2, THEN conjunct1]
    by (simp add: status_shard_lookup oriented_exts_def)
  have 5: "get_next_step (\<lambda>_. 0) 1 0 status_shard ''CGTA'' LEFT CHR ''C'' CHR ''A'' False False (Some (Gptr 0 0)) =
      Inr ((StepInfo_new ''CGTA'' CHR ''C'' CHR ''A'')\<lparr>walk_status := VISITED,
            visited_frag_elem_gptr := Some (Gptr 1 7)\<rparr>, status_shard)"
    using t [where shard = status_shard and kmer = "''CGTA''" and is_rc = False
        and kc = "\<lparr>kc_count = 4, kc_left = CHR ''A'', kc_right = CHR ''C'', uutig_frag = Some (Gptr 1 7)\<rparr>"
        and l = "CHR ''A''" and r = "CHR ''C''" and prev = "CHR ''C''" and dirn = LEFT
        and g = "Gptr 1 7" and tok = "Some (Gptr 0 0)",
        THEN conjunct2, THEN conjunct2, THEN conjunct2, THEN conjunct2, THEN conjunct1]
    by (simp add: status_shard_lookup oriented_exts_def)
  have 6: "get_next_step (\<lambda>_. 0) 1 0 status_shard ''GTAC'' RIGHT CHR ''C'' CHR ''G'' False False (Some (Gptr 0 0)) =
      Inr ((StepInfo_new ''GTAC'' CHR ''C'' CHR ''G'')\<lparr>walk_status := REPEAT\<rparr>, status_shard)"
    using t [where shard = status_shard and kmer = "''GTAC''" and is_rc = False
        and kc = "\<lparr>kc_count = 2, kc_left = CHR ''C'', kc_right = CHR ''G'', uutig_frag = Some (Gptr 0 0)\<rparr>"
        and l = "CHR ''C''" and r = "CHR ''G''" and prev = "CHR ''C''" and dirn = RIGHT
        and tok = "Some (Gptr 0 0)" and revisit = False,
        THEN conjunct2, THEN conjunct2, THEN conjunct2, THEN conjunct2, THEN conjunct2]
    by (simp add: status_shard_lookup oriented_exts_def)
  show ?thesis
    by (simp only: 1 2 3 4 5 6 status_shard_lookup) (simp add: StepInfo_new_def)
qed

section \<open>De Bruijn graph traversal: fragment links and connection (dbjg_traversal.cpp)\<close>

text \<open>
  A uutig fragment. The sequence is held in a separate array of the same rank in the source;
  here it is a field. \<open>frag_len\<close> is \<open>unsigned\<close> and \<open>sum_depths\<close> is \<open>int64_t\<close>. The fragments of all
  ranks are an association list from their global pointers: \<open>rget\<close> and \<open>local()\<close> are \<open>map_of\<close>,
  and reading through a pointer to no fragment is \<open>Out_of_range\<close>.
\<close>

record FragElem =
  left_gptr :: "gptr option"
  right_gptr :: "gptr option"
  left_is_rc :: bool
  right_is_rc :: bool
  frag_seq :: string
  frag_len :: nat
  sum_depths :: int
  visited :: bool

type_synonym frag_heap = "(gptr \<times> FragElem) list"

text \<open>
  \<open>revcomp\<close> of utils.cpp: the bases are complemented from the last to the first, and an illegal
  character is fatal.
\<close>

definition revcomp_base :: "char \<Rightarrow> error + char" where
  "revcomp_base ch =
     (if ch = CHR ''A'' then Inr CHR ''T''
      else if ch = CHR ''C'' then Inr CHR ''G''
      else if ch = CHR ''G'' then Inr CHR ''C''
      else if ch = CHR ''T'' then Inr CHR ''A''
      else if ch = CHR ''N'' then Inr CHR ''N''
      else if ch \<in> iupac_codes then Inr CHR ''N''
      else Inl (Die_illegal_char ch))"

fun comp_seq :: "string \<Rightarrow> error + string" where
  "comp_seq [] = Inr []"
| "comp_seq (c # cs) =
     (case revcomp_base c of
        Inl e \<Rightarrow> Inl e
      | Inr c' \<Rightarrow> (case comp_seq cs of Inl e \<Rightarrow> Inl e | Inr cs' \<Rightarrow> Inr (c' # cs')))"

definition revcomp :: "string \<Rightarrow> error + string" where
  "revcomp seq = comp_seq (rev seq)"

text \<open>
  \<open>is_overlap\<close>: \<open>left_seq.compare(left_seq.length() - overlap_len, overlap_len, right_seq, 0,
  overlap_len) == 0\<close>. When \<open>left_seq\<close> is shorter than the overlap the position wraps around
  and \<open>compare\<close> throws \<open>std::out_of_range\<close>.
\<close>

definition is_overlap :: "string \<Rightarrow> string \<Rightarrow> nat \<Rightarrow> error + bool" where
  "is_overlap left_seq right_seq overlap_len =
     (if length left_seq < overlap_len then Inl Out_of_range
      else Inr (drop (length left_seq - overlap_len) left_seq = take overlap_len right_seq))"

text \<open>
  \<open>set_link_status\<close>. It returns the neighbour pointer, the flag \<open>is_rc\<close> and the three counters
  it updates through its reference parameters. \<open>kmer_len\<close> is at least 1. The pointer is cleared
  when the neighbour's pointer on the facing side equals \<open>nb_gptr\<close>, the pointer to the neighbour
  itself; with no overlap in either orientation nothing is changed.
\<close>

definition set_link_status ::
  "frag_heap \<Rightarrow> Dirn \<Rightarrow> gptr option \<Rightarrow> bool \<Rightarrow> string \<Rightarrow> nat \<Rightarrow> nat \<Rightarrow> nat \<Rightarrow> nat \<Rightarrow>
   error + gptr option \<times> bool \<times> nat \<times> nat \<times> nat" where
  "set_link_status heap dirn nb_gptr is_rc uutig kmer_len num_overlaps num_overlaps_rc num_non_recip =
     (case nb_gptr of
        None \<Rightarrow> Inr (nb_gptr, is_rc, num_overlaps, num_overlaps_rc, num_non_recip)
      | Some nb \<Rightarrow>
          (case map_of heap nb of
             None \<Rightarrow> Inl Out_of_range
           | Some nb_frag_elem \<Rightarrow>
               let nb_frag_seq = frag_seq nb_frag_elem in
               (case is_overlap (if dirn = LEFT then nb_frag_seq else uutig)
                       (if dirn = LEFT then uutig else nb_frag_seq) (kmer_len - 1) of
                  Inl e \<Rightarrow> Inl e
                | Inr True \<Rightarrow>
                    if (if dirn = LEFT then right_gptr nb_frag_elem else left_gptr nb_frag_elem) = nb_gptr
                    then Inr (None, is_rc, num_overlaps, num_overlaps_rc, num_non_recip + 1)
                    else Inr (nb_gptr, is_rc, num_overlaps + 1, num_overlaps_rc, num_non_recip)
                | Inr False \<Rightarrow>
                    (case revcomp nb_frag_seq of
                       Inl e \<Rightarrow> Inl e
                     | Inr nb_frag_seq_rc \<Rightarrow>
                         (case is_overlap (if dirn = LEFT then nb_frag_seq_rc else uutig)
                                 (if dirn = LEFT then uutig else nb_frag_seq_rc) (kmer_len - 1) of
                            Inl e \<Rightarrow> Inl e
                          | Inr True \<Rightarrow>
                              if (if dirn = LEFT then left_gptr nb_frag_elem else right_gptr nb_frag_elem) = nb_gptr
                              then Inr (None, is_rc, num_overlaps, num_overlaps_rc, num_non_recip + 1)
                              else Inr (nb_gptr, True, num_overlaps, num_overlaps_rc + 1, num_non_recip)
                          | Inr False \<Rightarrow>
                              Inr (nb_gptr, is_rc, num_overlaps, num_overlaps_rc, num_non_recip))))))"

text \<open>
  The counters of \<open>clean_frag_links\<close>, the body of its loop for one fragment, and the loop over
  the fragments of a rank. The left link is cleaned and stored before the right one is looked at.
\<close>

record CleanStats =
  num_equal_links :: nat
  num_non_recip :: nat
  num_short :: nat
  num_left_links :: nat
  num_left_overlaps :: nat
  num_left_overlaps_rc :: nat
  num_right_links :: nat
  num_right_overlaps :: nat
  num_right_overlaps_rc :: nat

definition clean_frag_elem ::
  "nat \<Rightarrow> frag_heap \<Rightarrow> CleanStats \<Rightarrow> gptr \<Rightarrow> error + frag_heap \<times> CleanStats" where
  "clean_frag_elem kmer_len heap stats frag_elem_gptr =
     (case map_of heap frag_elem_gptr of
        None \<Rightarrow> Inl Out_of_range
      | Some frag_elem \<Rightarrow>
          if frag_len frag_elem < kmer_len then Inr (heap, stats\<lparr>num_short := num_short stats + 1\<rparr>)
          else
            let stats1 = stats\<lparr>
                  num_left_links := num_left_links stats + (if left_gptr frag_elem \<noteq> None then 1 else 0),
                  num_right_links := num_right_links stats + (if right_gptr frag_elem \<noteq> None then 1 else 0)\<rparr>;
                uutig = frag_seq frag_elem
            in if left_gptr frag_elem \<noteq> None \<and> left_gptr frag_elem = right_gptr frag_elem
               then Inr (AList.update frag_elem_gptr (frag_elem\<lparr>left_gptr := None, right_gptr := None\<rparr>) heap,
                         stats1\<lparr>num_equal_links := num_equal_links stats1 + 1\<rparr>)
               else
                 (case set_link_status heap LEFT (left_gptr frag_elem) (left_is_rc frag_elem) uutig kmer_len
                         (num_left_overlaps stats1) (num_left_overlaps_rc stats1) (num_non_recip stats1) of
                    Inl e \<Rightarrow> Inl e
                  | Inr (l, l_rc, lo, lo_rc, nr) \<Rightarrow>
                      let frag_elem1 = frag_elem\<lparr>left_gptr := l, left_is_rc := l_rc\<rparr>;
                          heap1 = AList.update frag_elem_gptr frag_elem1 heap
                      in (case set_link_status heap1 RIGHT (right_gptr frag_elem1) (right_is_rc frag_elem1)
                                 uutig kmer_len (num_right_overlaps stats1) (num_right_overlaps_rc stats1) nr of
                            Inl e \<Rightarrow> Inl e
                          | Inr (r, r_rc, ro, ro_rc, nr') \<Rightarrow>
                              Inr (AList.update frag_elem_gptr
                                     (frag_elem1\<lparr>right_gptr := r, right_is_rc := r_rc\<rparr>) heap1,
                                   stats1\<lparr>num_left_overlaps := lo, num_left_overlaps_rc := lo_rc,
                                     num_right_overlaps := ro, num_right_overlaps_rc := ro_rc,
                                     num_non_recip := nr'\<rparr>))))"

fun clean_frag_links_loop ::
  "nat \<Rightarrow> frag_heap \<Rightarrow> CleanStats \<Rightarrow> gptr list \<Rightarrow> error + frag_heap \<times> CleanStats" where
  "clean_frag_links_loop kmer_len heap stats [] = Inr (heap, stats)"
| "clean_frag_links_loop kmer_len heap stats (frag_elem_gptr # frag_elems) =
     (case clean_frag_elem kmer_len heap stats frag_elem_gptr of
        Inl e \<Rightarrow> Inl e
      | Inr (heap', stats') \<Rightarrow> clean_frag_links_loop kmer_len heap' stats' frag_elems)"

definition clean_frag_links :: "nat \<Rightarrow> frag_heap \<Rightarrow> gptr list \<Rightarrow> error + frag_heap \<times> CleanStats" where
  "clean_frag_links kmer_len heap frag_elems =
     clean_frag_links_loop kmer_len heap
       \<lparr>num_equal_links = 0, num_non_recip = 0, num_short = 0, num_left_links = 0,
        num_left_overlaps = 0, num_left_overlaps_rc = 0, num_right_links = 0,
        num_right_overlaps = 0, num_right_overlaps_rc = 0\<rparr> frag_elems"

text \<open>
  The constructor \<open>FragElem()\<close>.
\<close>

definition new_FragElem :: FragElem where
  "new_FragElem = \<lparr>left_gptr = None, right_gptr = None, left_is_rc = False, right_is_rc = False,
     frag_seq = [], frag_len = 0, sum_depths = 0, visited = False\<rparr>"

text \<open>
  The body of the loop of \<open>construct_frags\<close> for one k-mer of the rank, the loop, and
  \<open>construct_frags\<close> on rank \<open>rank_me\<close>. The loop runs over the k-mers of the local hash table
  in the order of the table, here the order of the shard; a k-mer that has an owner, or an
  extension X or F, starts no walk. \<open>new_<FragElem>()\<close> allocates the fragment at a new address
  of the rank, here the number of fragments the rank has made so far. The walk to the left and
  then the walk to the right fill in the sequence, the summed depth and the two neighbour
  pointers. The state is the index, the fragments of all ranks, the list \<open>frag_elems\<close> of the
  rank and the statistics. (The parameter \<open>kmer_len\<close> of the source is not used.)
\<close>

definition construct_frag ::
  "(string \<Rightarrow> nat) \<Rightarrow> nat \<Rightarrow> kmer_shard list \<times> frag_heap \<times> gptr list \<times> WalkTermStats \<Rightarrow> string \<Rightarrow>
   error + kmer_shard list \<times> frag_heap \<times> gptr list \<times> WalkTermStats" where
  "construct_frag hash rank_me st kmer =
     (case st of (dht, heap, frag_elems, walk_term_stats) \<Rightarrow>
        (case map_of (dht ! rank_me) kmer of
           None \<Rightarrow> Inl Out_of_range
         | Some kmer_counts \<Rightarrow>
             if uutig_frag kmer_counts \<noteq> None then Inr st
             else if kc_left kmer_counts = CHR ''X'' \<or> kc_left kmer_counts = CHR ''F'' \<or>
                     kc_right kmer_counts = CHR ''X'' \<or> kc_right kmer_counts = CHR ''F'' then Inr st
             else
               let frag_elem_gptr = Gptr rank_me (length frag_elems) in
               (case traverse_dirn hash dht kmer (Some frag_elem_gptr) LEFT [] 0 walk_term_stats of
                  Inl e \<Rightarrow> Inl e
                | Inr wl \<Rightarrow>
                    (case traverse_dirn hash (end_dht wl) kmer (Some frag_elem_gptr) RIGHT
                            (end_uutig wl) (end_sum_depths wl) (end_stats wl) of
                       Inl e \<Rightarrow> Inl e
                     | Inr wr \<Rightarrow>
                         Inr (end_dht wr,
                              heap @ [(frag_elem_gptr,
                                 new_FragElem\<lparr>frag_seq := end_uutig wr,
                                   frag_len := length (end_uutig wr),
                                   sum_depths := end_sum_depths wr,
                                   left_gptr := end_gptr wl, right_gptr := end_gptr wr\<rparr>)],
                              frag_elems @ [frag_elem_gptr],
                              end_stats wr)))))"

fun construct_frags_loop ::
  "(string \<Rightarrow> nat) \<Rightarrow> nat \<Rightarrow> kmer_shard list \<times> frag_heap \<times> gptr list \<times> WalkTermStats \<Rightarrow> string list \<Rightarrow>
   error + kmer_shard list \<times> frag_heap \<times> gptr list \<times> WalkTermStats" where
  "construct_frags_loop hash rank_me st [] = Inr st"
| "construct_frags_loop hash rank_me st (kmer # kmers) =
     (case construct_frag hash rank_me st kmer of
        Inl e \<Rightarrow> Inl e
      | Inr st' \<Rightarrow> construct_frags_loop hash rank_me st' kmers)"

definition construct_frags ::
  "(string \<Rightarrow> nat) \<Rightarrow> nat \<Rightarrow> kmer_shard list \<Rightarrow> frag_heap \<Rightarrow>
   error + kmer_shard list \<times> frag_heap \<times> gptr list \<times> WalkTermStats" where
  "construct_frags hash rank_me dht heap =
     (if \<not> rank_me < length dht then Inl Out_of_range
      else construct_frags_loop hash rank_me (dht, heap, [], no_stats) (map fst (dht ! rank_me)))"

text \<open>
  Modelled from the spec: the index after counting is built by code that is not among the
  sources. For k = 4 and the read \<open>ATACGTCA\<close>, seen twice, the canonical k-mers are \<open>ATAC\<close>
  (nothing before it, followed by G), \<open>CGTA\<close> (the reverse complement of \<open>TACG\<close>, which the read
  has between A and T; so preceded by A, followed by T), the palindrome \<open>ACGT\<close> (preceded by T,
  followed by C), \<open>CGTC\<close> (preceded by A, followed by A) and \<open>GTCA\<close> (preceded by C, nothing
  after it); each occurs twice and each extension is the only base seen on its side. The hash
  table of the one rank holds them in the order given. \<open>walked_shard\<close> and \<open>walked_heap\<close> are the
  index and the fragments after the walks.
\<close>

definition palindrome_shard :: kmer_shard where
  "palindrome_shard =
     [(''CGTA'', \<lparr>kc_count = 2, kc_left = CHR ''A'', kc_right = CHR ''T'', uutig_frag = None\<rparr>),
      (''ACGT'', \<lparr>kc_count = 2, kc_left = CHR ''T'', kc_right = CHR ''C'', uutig_frag = None\<rparr>),
      (''CGTC'', \<lparr>kc_count = 2, kc_left = CHR ''A'', kc_right = CHR ''A'', uutig_frag = None\<rparr>),
      (''ATAC'', \<lparr>kc_count = 2, kc_left = CHR ''X'', kc_right = CHR ''G'', uutig_frag = None\<rparr>),
      (''GTCA'', \<lparr>kc_count = 2, kc_left = CHR ''C'', kc_right = CHR ''X'', uutig_frag = None\<rparr>)]"

definition walked_shard :: kmer_shard where
  "walked_shard =
     [(''CGTA'', \<lparr>kc_count = 2, kc_left = CHR ''A'', kc_right = CHR ''T'', uutig_frag = Some (Gptr 0 0)\<rparr>),
      (''ACGT'', \<lparr>kc_count = 2, kc_left = CHR ''T'', kc_right = CHR ''C'', uutig_frag = Some (Gptr 0 1)\<rparr>),
      (''CGTC'', \<lparr>kc_count = 2, kc_left = CHR ''A'', kc_right = CHR ''A'', uutig_frag = Some (Gptr 0 1)\<rparr>),
      (''ATAC'', \<lparr>kc_count = 2, kc_left = CHR ''X'', kc_right = CHR ''G'', uutig_frag = None\<rparr>),
      (''GTCA'', \<lparr>kc_count = 2, kc_left = CHR ''C'', kc_right = CHR ''X'', uutig_frag = None\<rparr>)]"

definition walked_heap :: frag_heap where
  "walked_heap =
     [(Gptr 0 0, new_FragElem\<lparr>frag_seq := ''CGTA'', frag_len := 4, sum_depths := 4\<rparr>),
      (Gptr 0 1, new_FragElem\<lparr>frag_seq := ''ACGTC'', frag_len := 5, sum_depths := 6,
                   left_gptr := Some (Gptr 0 0)\<rparr>)]"

definition cleaned_heap :: frag_heap where
  "cleaned_heap =
     [(Gptr 0 0, new_FragElem\<lparr>frag_seq := ''CGTA'', frag_len := 4, sum_depths := 4\<rparr>),
      (Gptr 0 1, new_FragElem\<lparr>frag_seq := ''ACGTC'', frag_len := 5, sum_depths := 6,
                   left_gptr := Some (Gptr 0 0), left_is_rc := True\<rparr>)]"

lemmas construct_eval = construct_frags_def construct_frag_def traverse_dirn_loop.simps walk_eval
  palindrome_shard_def walked_shard_def walked_heap_def no_stats_def new_FragElem_def

lemmas clean_eval = clean_frag_links_def clean_frag_elem_def set_link_status_def is_overlap_def
  revcomp_def revcomp_base_def walked_heap_def cleaned_heap_def new_FragElem_def Let_def

text \<open>
  The walks on this index. The first walk starts at \<open>CGTA\<close>: to the left it steps to the
  palindrome \<open>ACGT\<close>, which it enters with the base A while the stored right extension is C, and
  ends with CONFLICT; to the right it ends at \<open>ATAC\<close> with DEADEND. Its fragment \<open>CGTA\<close> has no
  neighbour. The second walk starts at \<open>ACGT\<close>: to the left it steps to \<open>TACG\<close>, that is \<open>CGTA\<close>
  seen reverse-complemented, passes the conflict test and ends with VISITED, so that the first
  fragment becomes its left neighbour; to the right it claims \<open>CGTC\<close> and ends at \<open>GTCA\<close>.
\<close>

lemma construct_frags_palindrome:
  "construct_frags (\<lambda>_. 0) 0 [palindrome_shard] [] =
     Inr ([walked_shard], walked_heap, [Gptr 0 0, Gptr 0 1],
          \<lparr>num_deadends = 2, num_forks = 0, num_conflicts = 1, num_repeats = 0, num_visited = 1\<rparr>)"
  by (simp add: construct_eval)

lemma clean_walked_heap:
  "clean_frag_links 4 walked_heap [Gptr 0 0, Gptr 0 1] =
     Inr (cleaned_heap,
          \<lparr>num_equal_links = 0, num_non_recip = 0, num_short = 0, num_left_links = 1,
           num_left_overlaps = 0, num_left_overlaps_rc = 1, num_right_links = 0,
           num_right_overlaps = 0, num_right_overlaps_rc = 0\<rparr>)"
  by (simp add: clean_eval)

text \<open>
  Claim C1 fails on the code. The fragments that \<open>construct_frags\<close> builds from the index above
  are cleaned by \<open>clean_frag_links\<close> without any link being cleared or counted as
  non-reciprocating: afterwards the left neighbour of the second fragment is still the first
  one (now marked as reverse-complemented), although the first fragment has no neighbour at
  all, so that neither of its pointers is the second fragment.
\<close>

theorem clean_frag_links_keeps_non_reciprocal_link:
  "construct_frags (\<lambda>_. 0) 0 [palindrome_shard] [] =
     Inr ([walked_shard], walked_heap, [Gptr 0 0, Gptr 0 1],
          \<lparr>num_deadends = 2, num_forks = 0, num_conflicts = 1, num_repeats = 0, num_visited = 1\<rparr>) \<and>
   clean_frag_links 4 walked_heap [Gptr 0 0, Gptr 0 1] =
     Inr (cleaned_heap,
          \<lparr>num_equal_links = 0, num_non_recip = 0, num_short = 0, num_left_links = 1,
           num_left_overlaps = 0, num_left_overlaps_rc = 1, num_right_links = 0,
           num_right_overlaps = 0, num_right_overlaps_rc = 0\<rparr>) \<and>
   map_option left_gptr (map_of cleaned_heap (Gptr 0 1)) = Some (Some (Gptr 0 0)) \<and>
   map_option left_is_rc (map_of cleaned_heap (Gptr 0 1)) = Some True \<and>
   map_option left_gptr (map_of cleaned_heap (Gptr 0 0)) = Some None \<and>
   map_option right_gptr (map_of cleaned_heap (Gptr 0 0)) = Some None"
  using construct_frags_palindrome clean_walked_heap by (simp add: cleaned_heap_def new_FragElem_def)

text \<open>
  \<open>get_other_side_gptr\<close>.
\<close>

definition get_other_side_gptr :: "FragElem \<Rightarrow> gptr option \<Rightarrow> gptr option" where
  "get_other_side_gptr frag_elem frag_elem_gptr =
     (if left_gptr frag_elem = frag_elem_gptr then right_gptr frag_elem else left_gptr frag_elem)"

text \<open>
  What \<open>walk_frags_dirn\<close> updates through its reference parameters.
\<close>

record FragWalk =
  walk_uutig :: string
  walk_depths :: int
  walk_steps :: nat
  walk_num_repeats :: nat
  my_frag_elems_visited :: "gptr list"

text \<open>
  The choice of the direction at the first neighbour, and the extension of the uutig by the
  neighbour's sequence, in the four orders of \<open>is_overlap\<close> the source tries.
\<close>

definition find_walk_dirn :: "string \<Rightarrow> string \<Rightarrow> string \<Rightarrow> nat \<Rightarrow> error + Dirn" where
  "find_walk_dirn uutig next_frag_seq next_frag_seq_rc overlap_len =
     (case is_overlap uutig next_frag_seq overlap_len of
        Inl e \<Rightarrow> Inl e
      | Inr True \<Rightarrow> Inr RIGHT
      | Inr False \<Rightarrow>
          (case is_overlap next_frag_seq uutig overlap_len of
             Inl e \<Rightarrow> Inl e
           | Inr True \<Rightarrow> Inr LEFT
           | Inr False \<Rightarrow>
               (case is_overlap uutig next_frag_seq_rc overlap_len of
                  Inl e \<Rightarrow> Inl e
                | Inr True \<Rightarrow> Inr RIGHT
                | Inr False \<Rightarrow>
                    (case is_overlap next_frag_seq_rc uutig overlap_len of
                       Inl e \<Rightarrow> Inl e
                     | Inr True \<Rightarrow> Inr LEFT
                     | Inr False \<Rightarrow> Inl (Die ''No overlap'')))))"

definition extend_uutig :: "Dirn \<Rightarrow> nat \<Rightarrow> string \<Rightarrow> string \<Rightarrow> string \<Rightarrow> error + string" where
  "extend_uutig dirn kmer_len uutig next_frag_seq next_frag_seq_rc =
     (if dirn = LEFT then
        (case is_overlap next_frag_seq uutig (kmer_len - 1) of
           Inl e \<Rightarrow> Inl e
         | Inr True \<Rightarrow> Inr (take (length next_frag_seq + 1 - kmer_len) next_frag_seq @ uutig)
         | Inr False \<Rightarrow>
             (case is_overlap next_frag_seq_rc uutig (kmer_len - 1) of
                Inl e \<Rightarrow> Inl e
              | Inr True \<Rightarrow> Inr (take (length next_frag_seq + 1 - kmer_len) next_frag_seq_rc @ uutig)
              | Inr False \<Rightarrow> Inl (Die ''No valid overlap in dirn left'')))
      else
        (case is_overlap uutig next_frag_seq (kmer_len - 1) of
           Inl e \<Rightarrow> Inl e
         | Inr True \<Rightarrow> Inr (uutig @ drop (kmer_len - 1) next_frag_seq)
         | Inr False \<Rightarrow>
             (case is_overlap uutig next_frag_seq_rc (kmer_len - 1) of
                Inl e \<Rightarrow> Inl e
              | Inr True \<Rightarrow> Inr (uutig @ drop (kmer_len - 1) next_frag_seq_rc)
              | Inr False \<Rightarrow> Inl (Die ''No valid overlap in dirn right''))))"

text \<open>
  \<open>depths += (next_frag_elem.sum_depths * (1.0 - (kmer_len - 1) / next_frag_elem.frag_len))\<close>.
  \<open>kmer_len\<close> and \<open>frag_len\<close> are both \<open>unsigned\<close>, so the quotient is the integer quotient, and
  the weight \<open>1.0 - q\<close> is a whole number; the product and the sum are then whole numbers too,
  which a \<open>double\<close> holds exactly below \<open>2^53\<close>. \<open>kmer_len\<close> is at least 1.
\<close>

definition add_weighted_depth :: "nat \<Rightarrow> int \<Rightarrow> FragElem \<Rightarrow> error + int" where
  "add_weighted_depth kmer_len depths next_frag_elem =
     (if frag_len next_frag_elem = 0 then Inl Division_by_zero
      else Inr (depths + sum_depths next_frag_elem *
                  (1 - int ((kmer_len - 1) div frag_len next_frag_elem))))"

text \<open>
  The body of the loop \<open>while (next_gptr)\<close> of \<open>walk_frags_dirn\<close>. \<open>visited_gptrs\<close> is the hash
  table \<open>visited\<close> of the source.
\<close>

definition walk_frags_body ::
  "nat \<Rightarrow> nat \<Rightarrow> frag_heap \<Rightarrow> gptr option \<Rightarrow> gptr option \<Rightarrow> gptr list \<Rightarrow> Dirn \<Rightarrow> FragWalk \<Rightarrow>
   error + (bool \<times> FragWalk, gptr option \<times> gptr option \<times> gptr list \<times> Dirn \<times> FragWalk) loop_step" where
  "walk_frags_body rank_me kmer_len heap prev_gptr next_gptr visited_gptrs dirn w =
     (case next_gptr of
        None \<Rightarrow> Inr (Done (True, w))
      | Some nxt \<Rightarrow>
          if where_rank nxt > rank_me then Inr (Done (False, w))
          else if nxt \<in> set visited_gptrs
          then Inr (Done (True, w\<lparr>walk_num_repeats := walk_num_repeats w + 1\<rparr>))
          else
            (case map_of heap nxt of
               None \<Rightarrow> Inl Out_of_range
             | Some next_frag_elem \<Rightarrow>
                 if where_rank nxt = rank_me \<and> visited next_frag_elem
                 then Inl (Die ''gptr should not be already visited'')
                 else
                   let mine = (if where_rank nxt = rank_me then my_frag_elems_visited w @ [nxt]
                               else my_frag_elems_visited w);
                       next_frag_seq = frag_seq next_frag_elem
                   in (case revcomp next_frag_seq of
                         Inl e \<Rightarrow> Inl e
                       | Inr next_frag_seq_rc \<Rightarrow>
                           (case (if dirn = NONE
                                  then find_walk_dirn (walk_uutig w) next_frag_seq next_frag_seq_rc (kmer_len - 1)
                                  else Inr dirn) of
                              Inl e \<Rightarrow> Inl e
                            | Inr dirn' \<Rightarrow>
                                (case extend_uutig dirn' kmer_len (walk_uutig w) next_frag_seq next_frag_seq_rc of
                                   Inl e \<Rightarrow> Inl e
                                 | Inr uutig' \<Rightarrow>
                                     (case add_weighted_depth kmer_len (walk_depths w) next_frag_elem of
                                        Inl e \<Rightarrow> Inl e
                                      | Inr depths' \<Rightarrow>
                                          Inr (Again (Some nxt, get_other_side_gptr next_frag_elem prev_gptr,
                                                 nxt # visited_gptrs, dirn',
                                                 w\<lparr>walk_uutig := uutig', walk_depths := depths',
                                                   walk_steps := walk_steps w + 1,
                                                   my_frag_elems_visited := mine\<rparr>))))))))"

text \<open>
  Every turn of the loop that goes on has put a fragment not seen before into \<open>visited\<close>, so
  the number of fragments not in \<open>visited\<close> decreases.
\<close>

definition unvisited_frags :: "frag_heap \<Rightarrow> gptr list \<Rightarrow> nat" where
  "unvisited_frags heap visited_gptrs = card (fst ` set heap - set visited_gptrs)"

lemma walk_frags_body_measure:
  assumes "walk_frags_body rank_me kmer_len heap prev nxt vis dirn w = Inr (Again (prev', nxt', vis', dirn', w'))"
  shows "unvisited_frags heap vis' < unvisited_frags heap vis"
proof -
  from assms obtain g fe where g: "nxt = Some g" "g \<notin> set vis" "map_of heap g = Some fe" "vis' = g # vis"
    by (auto simp: walk_frags_body_def Let_def split: option.splits if_splits sum.splits)
  from g(3) have "g \<in> fst ` set heap" by (auto dest!: map_of_SomeD intro: rev_image_eqI)
  with g(2) have "fst ` set heap - set vis' \<subset> fst ` set heap - set vis"
    unfolding g(4) by auto
  then show ?thesis unfolding unvisited_frags_def by (intro psubset_card_mono) simp_all
qed

function walk_frags_loop ::
  "nat \<Rightarrow> nat \<Rightarrow> frag_heap \<Rightarrow> gptr option \<Rightarrow> gptr option \<Rightarrow> gptr list \<Rightarrow> Dirn \<Rightarrow> FragWalk \<Rightarrow>
   error + bool \<times> FragWalk" where
  "walk_frags_loop rank_me kmer_len heap prev_gptr next_gptr visited_gptrs dirn w =
     (case walk_frags_body rank_me kmer_len heap prev_gptr next_gptr visited_gptrs dirn w of
        Inl e \<Rightarrow> Inl e
      | Inr (Done res) \<Rightarrow> Inr res
      | Inr (Again (prev_gptr', next_gptr', visited_gptrs', dirn', w')) \<Rightarrow>
          walk_frags_loop rank_me kmer_len heap prev_gptr' next_gptr' visited_gptrs' dirn' w')"
  by pat_completeness auto
termination
  by (relation "measure (\<lambda>(rank_me, kmer_len, heap, prev, nxt, vis, dirn, w). unvisited_frags heap vis)")
    (auto simp: walk_frags_body_measure)

text \<open>
  \<open>walk_frags_dirn\<close>.
\<close>

definition walk_frags_dirn ::
  "nat \<Rightarrow> nat \<Rightarrow> frag_heap \<Rightarrow> gptr \<Rightarrow> gptr option \<Rightarrow> FragWalk \<Rightarrow> error + bool \<times> FragWalk" where
  "walk_frags_dirn rank_me kmer_len heap frag_elem_gptr next_gptr w =
     (if next_gptr = None then Inr (True, w)
      else walk_frags_loop rank_me kmer_len heap (Some frag_elem_gptr) next_gptr [frag_elem_gptr] NONE w)"

text \<open>
  The counters of \<open>connect_frags\<close>; \<open>num_repeats_c\<close> is its \<open>num_repeats\<close>.
\<close>

record ConnectStats =
  num_steps :: nat
  max_steps :: nat
  num_drops :: nat
  num_prev_visited :: nat
  num_repeats_c :: nat

text \<open>
  \<open>for (auto &elem : my_frag_elems_visited) elem->visited = true\<close>.
\<close>

definition set_visited :: "frag_heap \<Rightarrow> gptr list \<Rightarrow> frag_heap" where
  "set_visited heap elems =
     fold (\<lambda>elem h. case map_of h elem of
                       None \<Rightarrow> h
                     | Some frag_elem \<Rightarrow> AList.update elem (frag_elem\<lparr>visited := True\<rparr>) h) elems heap"

text \<open>
  The depth of the emitted contig, \<open>(double)depths / (uutig.length() - kmer_len + 2)\<close>: the
  divisor is computed in \<open>size_t\<close>; the quotient of the two \<open>double\<close>s is taken as the quotient of
  real numbers.
\<close>

definition contig_depth :: "int \<Rightarrow> string \<Rightarrow> nat \<Rightarrow> real" where
  "contig_depth depths uutig kmer_len =
     real_of_int depths / real_of_int ((int (length uutig) - int kmer_len + 2) mod 2 ^ 64)"

text \<open>
  The body of the loop of \<open>connect_frags\<close> for one fragment, the loop, and \<open>connect_frags\<close> on
  rank \<open>rank_me\<close>.
\<close>

definition connect_frag_elem ::
  "nat \<Rightarrow> nat \<Rightarrow> frag_heap \<Rightarrow> real Contig list \<Rightarrow> ConnectStats \<Rightarrow> gptr \<Rightarrow>
   error + frag_heap \<times> real Contig list \<times> ConnectStats" where
  "connect_frag_elem rank_me kmer_len heap my_uutigs stats frag_elem_gptr =
     (case map_of heap frag_elem_gptr of
        None \<Rightarrow> Inl Out_of_range
      | Some frag_elem \<Rightarrow>
          if frag_len frag_elem < kmer_len then Inr (heap, my_uutigs, stats)
          else if visited frag_elem
          then Inr (heap, my_uutigs, stats\<lparr>num_prev_visited := num_prev_visited stats + 1\<rparr>)
          else
            let w0 = \<lparr>walk_uutig = frag_seq frag_elem, walk_depths = sum_depths frag_elem,
                      walk_steps = 1, walk_num_repeats = num_repeats_c stats,
                      my_frag_elems_visited = []\<rparr>
            in (case walk_frags_dirn rank_me kmer_len heap frag_elem_gptr (left_gptr frag_elem) w0 of
                  Inl e \<Rightarrow> Inl e
                | Inr (walk_ok, w1) \<Rightarrow>
                    (case (if walk_ok
                           then walk_frags_dirn rank_me kmer_len heap frag_elem_gptr (right_gptr frag_elem) w1
                           else Inr (walk_ok, w1)) of
                       Inl e \<Rightarrow> Inl e
                     | Inr (walk_ok', w2) \<Rightarrow>
                         if walk_ok' then
                           Inr (set_visited heap (my_frag_elems_visited w2),
                                my_uutigs @
                                  [\<lparr>ctg_id = 0, ctg_seq = walk_uutig w2,
                                    ctg_depth = contig_depth (walk_depths w2) (walk_uutig w2) kmer_len\<rparr>],
                                stats\<lparr>num_steps := num_steps stats + walk_steps w2,
                                  max_steps := max (walk_steps w2) (max_steps stats),
                                  num_repeats_c := walk_num_repeats w2\<rparr>)
                         else
                           Inr (heap, my_uutigs,
                                stats\<lparr>num_drops := num_drops stats + 1,
                                  num_repeats_c := walk_num_repeats w2\<rparr>))))"

fun connect_frags_loop ::
  "nat \<Rightarrow> nat \<Rightarrow> frag_heap \<Rightarrow> real Contig list \<Rightarrow> ConnectStats \<Rightarrow> gptr list \<Rightarrow>
   error + frag_heap \<times> real Contig list \<times> ConnectStats" where
  "connect_frags_loop rank_me kmer_len heap my_uutigs stats [] = Inr (heap, my_uutigs, stats)"
| "connect_frags_loop rank_me kmer_len heap my_uutigs stats (frag_elem_gptr # frag_elems) =
     (case connect_frag_elem rank_me kmer_len heap my_uutigs stats frag_elem_gptr of
        Inl e \<Rightarrow> Inl e
      | Inr (heap', my_uutigs', stats') \<Rightarrow>
          connect_frags_loop rank_me kmer_len heap' my_uutigs' stats' frag_elems)"

definition connect_frags ::
  "nat \<Rightarrow> nat \<Rightarrow> frag_heap \<Rightarrow> gptr list \<Rightarrow> error + frag_heap \<times> real Contig list \<times> ConnectStats" where
  "connect_frags rank_me kmer_len heap frag_elems =
     connect_frags_loop rank_me kmer_len heap []
       \<lparr>num_steps = 0, max_steps = 0, num_drops = 0, num_prev_visited = 0, num_repeats_c = 0\<rparr>
       frag_elems"

text \<open>
  Two fragments of one rank with reciprocal links, for k = 3: A of 4 bases with summed depth 8
  and, to its right, B of 6 bases with summed depth 12.
\<close>

definition frag_A :: gptr where "frag_A = Gptr 0 0"
definition frag_B :: gptr where "frag_B = Gptr 0 1"

definition two_frag_heap :: frag_heap where
  "two_frag_heap =
     [(frag_A, new_FragElem\<lparr>frag_seq := ''AACC'', frag_len := 4, sum_depths := 8,
                  right_gptr := Some frag_B\<rparr>),
      (frag_B, new_FragElem\<lparr>frag_seq := ''CCGGTT'', frag_len := 6, sum_depths := 12,
                  left_gptr := Some frag_A\<rparr>)]"

lemma add_weighted_depth_long:
  "kmer_len - 1 < frag_len next_frag_elem \<Longrightarrow>
     add_weighted_depth kmer_len depths next_frag_elem = Inr (depths + sum_depths next_frag_elem)"
  by (simp add: add_weighted_depth_def)

lemmas connect_eval = connect_frags_def connect_frag_elem_def walk_frags_dirn_def
  walk_frags_body_def find_walk_dirn_def extend_uutig_def add_weighted_depth_def
  get_other_side_gptr_def set_visited_def contig_depth_def is_overlap_def
  revcomp_def revcomp_base_def two_frag_heap_def new_FragElem_def frag_A_def frag_B_def Let_def

text \<open>
  Claim C6 fails on the code. Appending B to A adds the whole summed depth 12 of B (weight
  \<open>1 - 2 div 6 = 1\<close>), so the total is 20 and the contig \<open>AACCGGTT\<close> gets the depth 20 / 7; with
  the real-valued weight \<open>1 - (k - 1) / frag_len = 2/3\<close> of the claim the total would be 16.
\<close>

theorem connect_frags_adds_full_depth:
  "connect_frags 0 3 two_frag_heap [frag_A, frag_B] =
     Inr ([(frag_A, new_FragElem\<lparr>frag_seq := ''AACC'', frag_len := 4, sum_depths := 8,
                      right_gptr := Some frag_B\<rparr>),
           (frag_B, new_FragElem\<lparr>frag_seq := ''CCGGTT'', frag_len := 6, sum_depths := 12,
                      left_gptr := Some frag_A, visited := True\<rparr>)],
          [\<lparr>ctg_id = 0, ctg_seq = ''AACCGGTT'', ctg_depth = 20 / 7\<rparr>],
          \<lparr>num_steps = 2, max_steps = 2, num_drops = 0, num_prev_visited = 1, num_repeats_c = 0\<rparr>) \<and>
   add_weighted_depth 3 8 (new_FragElem\<lparr>frag_seq := ''CCGGTT'', frag_len := 6, sum_depths := 12,
                      left_gptr := Some frag_A\<rparr>) = Inr 20 \<and>
   (8 :: real) + 12 * (1 - (3 - 1) / 6) = 16"
  by (simp add: connect_eval)

section \<open>Read shuffling: the map from k-mers to contig ids (shuffle_reads.cpp)\<close>

text \<open>
  Modelled from the spec: \<open>Kmer::get_kmers\<close> is not among the sources; it gives every substring
  of length k of a sequence, in order.
\<close>

definition get_kmers :: "nat \<Rightarrow> string \<Rightarrow> string list" where
  "get_kmers k seq = map (\<lambda>i. take k (drop i seq)) [0..<length seq + 1 - k]"

text \<open>
  Modelled from the spec: \<open>Kmer::get_longs\<close> is not among the sources; a k-mer is packed two bits
  for each base (A = 0, C = 1, G = 2, T = 3), the first base in the highest bits, so that for
  k < 32 the first 64-bit word holds the whole k-mer.
\<close>

definition base_bits :: "char \<Rightarrow> 64 word" where
  "base_bits ch =
     (if ch = CHR ''C'' then 1 else if ch = CHR ''G'' then 2 else if ch = CHR ''T'' then 3 else 0)"

fun pack_bases :: "nat \<Rightarrow> string \<Rightarrow> 64 word" where
  "pack_bases i [] = 0"
| "pack_bases i (ch # kmer) = push_bit (2 * (31 - i)) (base_bits ch) OR pack_bases (Suc i) kmer"

definition get_longs0 :: "string \<Rightarrow> 64 word" where
  "get_longs0 kmer = pack_bases 0 kmer"

text \<open>
  The k-mer whose word is the key, on the contig side and on the read side alike:
  \<open>auto kmer_rc = kmer.revcomp(); if (kmer < kmer_rc) kmer = kmer_rc;\<close>.
\<close>

definition shuffle_key_kmer :: "string \<Rightarrow> string" where
  "shuffle_key_kmer kmer =
     (let kmer_rc = kmer_revcomp kmer in if kmer < kmer_rc then kmer_rc else kmer)"

text \<open>
  The updates that the loops of \<open>compute_kmer_to_cid_map\<close> send for a list of contigs: the
  target rank, the key and the contig id. \<open>shuffle_kmer_len\<close> is the constant
  \<open>SHUFFLE_KMER_LEN\<close>, defined in a header that is not among the sources.
\<close>

definition kmer_cid_updates ::
  "(string \<Rightarrow> nat) \<Rightarrow> nat \<Rightarrow> nat \<Rightarrow> 'd Contig list \<Rightarrow> (nat \<times> 64 word \<times> int) list" where
  "kmer_cid_updates hash rank_n shuffle_kmer_len ctgs =
     concat (map (\<lambda>ctg.
        map (\<lambda>kmer. (get_kmer_target_rank hash rank_n (shuffle_key_kmer kmer),
                      get_longs0 (shuffle_key_kmer kmer), ctg_id ctg))
          (get_kmers shuffle_kmer_len (ctg_seq ctg))) ctgs)"

text \<open>
  The distributed map: for each rank its hash table from keys to contig ids. The update
  function inserts a key that is absent and ignores one that is present.
  \<open>compute_kmer_to_cid_map\<close> applies the updates in the order they arrive.
\<close>

type_synonym kmer_to_cid_map = "nat \<Rightarrow> 64 word \<rightharpoonup> int"

definition kmer_cid_update_func :: "nat \<times> 64 word \<times> int \<Rightarrow> kmer_to_cid_map \<Rightarrow> kmer_to_cid_map" where
  "kmer_cid_update_func msg m =
     (case msg of (target, kmer, cid) \<Rightarrow>
        (case m target kmer of
           None \<Rightarrow> m(target := (m target)(kmer \<mapsto> cid))
         | Some _ \<Rightarrow> m))"

definition compute_kmer_to_cid_map :: "(nat \<times> 64 word \<times> int) list \<Rightarrow> kmer_to_cid_map" where
  "compute_kmer_to_cid_map msgs = fold kmer_cid_update_func msgs (\<lambda>_. Map.empty)"

text \<open>
  The read side (\<open>compute_cid_to_reads_map\<close> and \<open>update_cid_reads\<close>): every 32nd k-mer of a read
  that is long enough is looked up at its target rank; a key that is absent gives -1.
\<close>

fun every_32nd :: "'a list \<Rightarrow> 'a list" where
  "every_32nd [] = []"
| "every_32nd (x # xs) = x # every_32nd (drop 31 xs)"

definition read_kmer_requests ::
  "(string \<Rightarrow> nat) \<Rightarrow> nat \<Rightarrow> nat \<Rightarrow> string \<Rightarrow> (nat \<times> 64 word) list" where
  "read_kmer_requests hash rank_n shuffle_kmer_len read_seq =
     (if length read_seq < shuffle_kmer_len then []
      else map (\<lambda>kmer. (get_kmer_target_rank hash rank_n (shuffle_key_kmer kmer),
                         get_longs0 (shuffle_key_kmer kmer)))
             (every_32nd (get_kmers shuffle_kmer_len read_seq)))"

definition lookup_cid :: "kmer_to_cid_map \<Rightarrow> nat \<times> 64 word \<Rightarrow> int" where
  "lookup_cid m req = (case m (fst req) (snd req) of None \<Rightarrow> - 1 | Some cid \<Rightarrow> cid)"

lemma shuffle_key_kmer_revcomp: "shuffle_key_kmer (kmer_revcomp kmer) = shuffle_key_kmer kmer"
  by (auto simp: shuffle_key_kmer_def Let_def kmer_revcomp_involution)

lemma shuffle_key_kmer_is_larger:
  "shuffle_key_kmer kmer \<in> {kmer, kmer_revcomp kmer} \<and>
   kmer \<le> shuffle_key_kmer kmer \<and> kmer_revcomp kmer \<le> shuffle_key_kmer kmer"
  by (auto simp: shuffle_key_kmer_def Let_def)

lemma fold_update_Some:
  "fold kmer_cid_update_func msgs m target key = Some cid \<Longrightarrow>
     m target key = Some cid \<or> (target, key, cid) \<in> set msgs"
proof (induction msgs arbitrary: m)
  case Nil
  then show ?case by simp
next
  case (Cons msg msgs)
  obtain t k c where msg: "msg = (t, k, c)" by (cases msg)
  from Cons.IH[of "kmer_cid_update_func msg m"] Cons.prems
  have "kmer_cid_update_func msg m target key = Some cid \<or> (target, key, cid) \<in> set msgs" by simp
  then show ?case
    by (auto simp: kmer_cid_update_func_def msg split: option.splits if_splits)
qed

lemma fold_update_keeps:
  "m target key = Some cid \<Longrightarrow> fold kmer_cid_update_func msgs m target key = Some cid"
proof (induction msgs arbitrary: m)
  case Nil
  then show ?case by simp
next
  case (Cons msg msgs)
  obtain t k c where msg: "msg = (t, k, c)" by (cases msg)
  have "kmer_cid_update_func msg m target key = Some cid"
    using Cons.prems by (auto simp: kmer_cid_update_func_def msg split: option.splits)
  from Cons.IH[of "kmer_cid_update_func msg m", OF this] show ?case by simp
qed

lemma fold_update_present:
  "(target, key, cid) \<in> set msgs \<Longrightarrow> \<exists>cid'. fold kmer_cid_update_func msgs m target key = Some cid'"
proof (induction msgs arbitrary: m)
  case Nil
  then show ?case by simp
next
  case (Cons msg msgs)
  show ?case
  proof (cases "msg = (target, key, cid)")
    case True
    have "\<exists>cid'. kmer_cid_update_func msg m target key = Some cid'"
      by (cases "m target key") (simp_all add: kmer_cid_update_func_def True)
    then obtain cid' where "kmer_cid_update_func msg m target key = Some cid'" by blast
    from fold_update_keeps[of "kmer_cid_update_func msg m", OF this] show ?thesis by auto
  next
    case False
    with Cons.prems have "(target, key, cid) \<in> set msgs" by simp
    from Cons.IH[OF this, of "kmer_cid_update_func msg m"] show ?thesis by simp
  qed
qed

lemma kmer_cid_updates_set:
  "(target, key, cid) \<in> set (kmer_cid_updates hash rank_n k ctgs) \<longleftrightarrow>
     (\<exists>ctg \<in> set ctgs. \<exists>kmer \<in> set (get_kmers k (ctg_seq ctg)).
        target = get_kmer_target_rank hash rank_n (shuffle_key_kmer kmer) \<and>
        key = get_longs0 (shuffle_key_kmer kmer) \<and> cid = ctg_id ctg)"
  by (auto simp: kmer_cid_updates_def)

text \<open>
  Claim C7, as the code has it. Whatever the order the updates arrive in, every key of the map
  is the packed form of the lexicographically larger of a contig k-mer and its reverse
  complement, stored at the home rank of that k-mer with the id of its contig; a k-mer that is
  equal to a contig k-mer or to its reverse complement is looked up with the same key at the same
  rank, and finds an entry there; and every request of a read is made of such a key.
\<close>

theorem shuffle_keys_larger_strand_and_meet:
  assumes "mset msgs = mset (kmer_cid_updates hash rank_n k ctgs)"
  shows "(\<forall>target key cid. compute_kmer_to_cid_map msgs target key = Some cid \<longrightarrow>
            (\<exists>ctg \<in> set ctgs. \<exists>kmer \<in> set (get_kmers k (ctg_seq ctg)).
               key = get_longs0 (shuffle_key_kmer kmer) \<and>
               target = get_kmer_target_rank hash rank_n (shuffle_key_kmer kmer) \<and>
               cid = ctg_id ctg \<and>
               shuffle_key_kmer kmer \<in> {kmer, kmer_revcomp kmer} \<and>
               kmer \<le> shuffle_key_kmer kmer \<and> kmer_revcomp kmer \<le> shuffle_key_kmer kmer)) \<and>
         (\<forall>ctg \<in> set ctgs. \<forall>y \<in> set (get_kmers k (ctg_seq ctg)). \<forall>x.
            x = y \<or> x = kmer_revcomp y \<longrightarrow>
              shuffle_key_kmer x = shuffle_key_kmer y \<and>
              (\<exists>cid. compute_kmer_to_cid_map msgs
                        (get_kmer_target_rank hash rank_n (shuffle_key_kmer x))
                        (get_longs0 (shuffle_key_kmer x)) = Some cid \<and>
                     lookup_cid (compute_kmer_to_cid_map msgs)
                        (get_kmer_target_rank hash rank_n (shuffle_key_kmer x),
                         get_longs0 (shuffle_key_kmer x)) = cid)) \<and>
         (\<forall>read_seq. \<forall>req \<in> set (read_kmer_requests hash rank_n k read_seq).
            \<exists>x \<in> set (get_kmers k read_seq).
              req = (get_kmer_target_rank hash rank_n (shuffle_key_kmer x),
                     get_longs0 (shuffle_key_kmer x)))"
proof (intro conjI allI impI ballI)
  fix target key cid
  assume "compute_kmer_to_cid_map msgs target key = Some cid"
  then have "(target, key, cid) \<in> set msgs"
    using fold_update_Some[of msgs "\<lambda>_. Map.empty" target key cid]
    by (simp add: compute_kmer_to_cid_map_def)
  then have "(target, key, cid) \<in> set (kmer_cid_updates hash rank_n k ctgs)"
    using assms by (metis set_mset_mset)
  then show "\<exists>ctg \<in> set ctgs. \<exists>kmer \<in> set (get_kmers k (ctg_seq ctg)).
               key = get_longs0 (shuffle_key_kmer kmer) \<and>
               target = get_kmer_target_rank hash rank_n (shuffle_key_kmer kmer) \<and>
               cid = ctg_id ctg \<and>
               shuffle_key_kmer kmer \<in> {kmer, kmer_revcomp kmer} \<and>
               kmer \<le> shuffle_key_kmer kmer \<and> kmer_revcomp kmer \<le> shuffle_key_kmer kmer"
    unfolding kmer_cid_updates_set using shuffle_key_kmer_is_larger by blast
next
  fix ctg y x
  assume ctg: "ctg \<in> set ctgs" and y: "y \<in> set (get_kmers k (ctg_seq ctg))"
    and x: "x = y \<or> x = kmer_revcomp y"
  from x show eq: "shuffle_key_kmer x = shuffle_key_kmer y"
    by (auto simp: shuffle_key_kmer_revcomp)
  from ctg y have "(get_kmer_target_rank hash rank_n (shuffle_key_kmer y),
      get_longs0 (shuffle_key_kmer y), ctg_id ctg) \<in> set (kmer_cid_updates hash rank_n k ctgs)"
    unfolding kmer_cid_updates_set by blast
  then have "(get_kmer_target_rank hash rank_n (shuffle_key_kmer y),
      get_longs0 (shuffle_key_kmer y), ctg_id ctg) \<in> set msgs"
    using assms by (metis set_mset_mset)
  from fold_update_present[OF this, of "\<lambda>_. Map.empty"]
  obtain cid where "compute_kmer_to_cid_map msgs (get_kmer_target_rank hash rank_n (shuffle_key_kmer y))
      (get_longs0 (shuffle_key_kmer y)) = Some cid"
    by (auto simp: compute_kmer_to_cid_map_def)
  then show "\<exists>cid. compute_kmer_to_cid_map msgs
                        (get_kmer_target_rank hash rank_n (shuffle_key_kmer x))
                        (get_longs0 (shuffle_key_kmer x)) = Some cid \<and>
                     lookup_cid (compute_kmer_to_cid_map msgs)
                        (get_kmer_target_rank hash rank_n (shuffle_key_kmer x),
                         get_longs0 (shuffle_key_kmer x)) = cid"
    unfolding eq by (simp add: lookup_cid_def)
next
  fix read_seq req
  assume "req \<in> set (read_kmer_requests hash rank_n k read_seq)"
  moreover have "set (every_32nd xs) \<subseteq> set xs" for xs :: "string list"
    by (induction xs rule: every_32nd.induct) (auto dest: in_set_dropD)
  ultimately show "\<exists>x \<in> set (get_kmers k read_seq).
              req = (get_kmer_target_rank hash rank_n (shuffle_key_kmer x),
                     get_longs0 (shuffle_key_kmer x))"
    by (auto simp: read_kmer_requests_def split: if_splits)
qed

text \<open>
  One contig \<open>AAC\<close> with id 7, k = 3 and a single rank.
\<close>

definition ctg_AAC :: "unit Contig" where
  "ctg_AAC = \<lparr>ctg_id = 7, ctg_seq = ''AAC'', ctg_depth = ()\<rparr>"

lemma longs0_GTT: "get_longs0 ''GTT'' = 0xBC00000000000000"
  by (simp add: get_longs0_def base_bits_def)

lemma longs0_AAC: "get_longs0 ''AAC'' = 0x0400000000000000"
  by (simp add: get_longs0_def base_bits_def)

lemma shuffle_key_AAC: "shuffle_key_kmer ''AAC'' = ''GTT''" "shuffle_key_kmer ''GTT'' = ''GTT''"
  by (simp_all add: shuffle_key_kmer_def kmer_revcomp_def kmer_comp_def)

lemma updates_AAC:
  "kmer_cid_updates (\<lambda>_. 0) 1 3 [ctg_AAC] = [(0, 0xBC00000000000000, 7)]"
  by (simp add: kmer_cid_updates_def ctg_AAC_def get_kmers_def shuffle_key_AAC longs0_GTT
      get_kmer_target_rank_def)

text \<open>
  Claim C7 as stated fails: for the contig \<open>AAC\<close> the key stored is that of \<open>GTT\<close>, the reverse
  complement, while the canonical form is the smaller \<open>AAC\<close>, whose key is not in the map.
\<close>

theorem shuffle_key_not_canonical_counterexample:
  "compute_kmer_to_cid_map (kmer_cid_updates (\<lambda>_. 0) 1 3 [ctg_AAC]) 0 (get_longs0 ''GTT'') = Some 7 \<and>
   compute_kmer_to_cid_map (kmer_cid_updates (\<lambda>_. 0) 1 3 [ctg_AAC]) 0 (get_longs0 ''AAC'') = None \<and>
   get_kmers 3 (ctg_seq ctg_AAC) = [''AAC''] \<and>
   canonical_kmer ''AAC'' = (''AAC'', False) \<and> kmer_revcomp ''AAC'' = ''GTT'' \<and> ''AAC'' < ''GTT''"
  unfolding updates_AAC longs0_GTT longs0_AAC
  by (simp add: compute_kmer_to_cid_map_def kmer_cid_update_func_def
      get_kmers_def ctg_AAC_def canonical_kmer_def kmer_revcomp_def kmer_comp_def)

text \<open>
  The theorem of claim C7 at the contig \<open>AAC\<close> and the read k-mer \<open>GTT\<close>.
\<close>

theorem shuffle_keys_larger_strand_and_meet_witness:
  "mset (kmer_cid_updates (\<lambda>_. 0) 1 3 [ctg_AAC]) = mset (kmer_cid_updates (\<lambda>_. 0) 1 3 [ctg_AAC]) \<and>
   ''AAC'' \<in> set (get_kmers 3 (ctg_seq ctg_AAC)) \<and>
   shuffle_key_kmer ''GTT'' = shuffle_key_kmer ''AAC'' \<and>
   read_kmer_requests (\<lambda>_. 0) 1 3 ''GTT'' = [(0, get_longs0 ''GTT'')] \<and>
   lookup_cid (compute_kmer_to_cid_map (kmer_cid_updates (\<lambda>_. 0) 1 3 [ctg_AAC]))
     (0, get_longs0 ''GTT'') = 7"
proof -
  have in_k: "''AAC'' \<in> set (get_kmers 3 (ctg_seq ctg_AAC))"
    by (simp add: get_kmers_def ctg_AAC_def)
  have req: "read_kmer_requests (\<lambda>_. 0) 1 3 ''GTT'' = [(0, get_longs0 ''GTT'')]"
    by (simp add: read_kmer_requests_def get_kmers_def shuffle_key_AAC get_kmer_target_rank_def)
  have val: "compute_kmer_to_cid_map (kmer_cid_updates (\<lambda>_. 0) 1 3 [ctg_AAC]) 0 (get_longs0 ''GTT'') = Some 7"
    unfolding updates_AAC longs0_GTT
    by (simp add: compute_kmer_to_cid_map_def kmer_cid_update_func_def)
  have rc: "''GTT'' = ''AAC'' \<or> ''GTT'' = kmer_revcomp ''AAC''"
    by (simp add: kmer_revcomp_def kmer_comp_def)
  from shuffle_keys_larger_strand_and_meet
    [of "kmer_cid_updates (\<lambda>_. 0) 1 3 [ctg_AAC]" "\<lambda>_. 0" 1 3 "[ctg_AAC]", OF refl, THEN conjunct2,
      THEN conjunct1, rule_format, of ctg_AAC "''AAC''" "''GTT''", OF _ in_k rc, THEN conjunct1]
  have "shuffle_key_kmer ''GTT'' = shuffle_key_kmer ''AAC''" by simp
  moreover have "lookup_cid (compute_kmer_to_cid_map (kmer_cid_updates (\<lambda>_. 0) 1 3 [ctg_AAC]))
            (0, get_longs0 ''GTT'') = 7"
    using val by (simp add: lookup_cid_def)
  ultimately have "shuffle_key_kmer ''GTT'' = shuffle_key_kmer ''AAC''"
    and "lookup_cid (compute_kmer_to_cid_map (kmer_cid_updates (\<lambda>_. 0) 1 3 [ctg_AAC]))
            (0, get_longs0 ''GTT'') = 7" by simp_all
  with in_k req show ?thesis by simp
qed

section \<open>Contigs on disk: dump_contigs and load_contigs (contigs.cpp)\<close>

subsection \<open>The input file stream of the C++ library\<close>

definition newline :: char where
  "newline = CHR 0x0A"

text \<open>
  An \<open>std::ifstream\<close> on a file: the bytes of the file, the read position and the two state
  bits that the loader can set. The stream is good when neither bit is set. The end of a line
  is the character \<open>newline\<close> (the file is read on a system that does not translate it).
\<close>

record ifstream =
  file_content :: string
  get_pos :: nat
  eofbit :: bool
  failbit :: bool

definition good :: "ifstream \<Rightarrow> bool" where
  "good f \<longleftrightarrow> \<not> eofbit f \<and> \<not> failbit f"

definition ifstream_open :: "string \<Rightarrow> ifstream" where
  "ifstream_open file = \<lparr>file_content = file, get_pos = 0, eofbit = False, failbit = False\<rparr>"

text \<open>
  The conversion of a stream position (a signed 64-bit offset, -1 for failure) to \<open>size_t\<close>.
\<close>

definition size_t_of :: "int \<Rightarrow> nat" where
  "size_t_of i = nat (i mod 2 ^ 64)"

text \<open>
  \<open>seekg(pos)\<close> with a \<open>size_t\<close> argument: the end-of-file bit is cleared first; on a stream
  whose fail bit is set nothing else happens; an offset that is negative as a signed 64-bit
  number sets the fail bit; otherwise the position is set, also beyond the end of the file.
\<close>

definition seekg :: "ifstream \<Rightarrow> nat \<Rightarrow> ifstream" where
  "seekg f offset =
     (let f1 = f\<lparr>eofbit := False\<rparr>
      in if failbit f1 then f1
         else if 2 ^ 63 \<le> offset then f1\<lparr>failbit := True\<rparr>
         else f1\<lparr>get_pos := offset\<rparr>)"

text \<open>
  \<open>tellg()\<close>: the position of a good stream; on a stream that is not good the fail bit is set
  and the result is -1.
\<close>

definition tellg :: "ifstream \<Rightarrow> ifstream \<times> int" where
  "tellg f = (if good f then (f, int (get_pos f)) else (f\<lparr>failbit := True\<rparr>, - 1))"

text \<open>
  \<open>std::getline(f, str)\<close>, which returns the stream and the new value of \<open>str\<close>. On a stream
  that is not good the fail bit is set and \<open>str\<close> is left as it was. Otherwise \<open>str\<close> becomes the
  characters up to the next newline, which is consumed; when the file ends before a newline
  the end-of-file bit is set, and the fail bit too when no character was read.
\<close>

definition getline :: "ifstream \<Rightarrow> string \<Rightarrow> ifstream \<times> string" where
  "getline f str =
     (if \<not> good f then (f\<lparr>failbit := True\<rparr>, str)
      else
        let rest = drop (get_pos f) (file_content f);
            line = takeWhile (\<lambda>c. c \<noteq> newline) rest
        in if length line < length rest
           then (f\<lparr>get_pos := get_pos f + length line + 1\<rparr>, line)
           else (f\<lparr>get_pos := get_pos f + length line, eofbit := True, failbit := (line = [])\<rparr>, line))"

text \<open>
  The three ways \<open>getline\<close> can go, and the progress it makes when it does not fail.
\<close>

lemma getline_cases:
  assumes "getline f str = (f1, line)"
  obtains (bad) "\<not> good f" "f1 = f\<lparr>failbit := True\<rparr>" "line = str"
    | (nl) "good f" "line = takeWhile (\<lambda>c. c \<noteq> newline) (drop (get_pos f) (file_content f))"
        "get_pos f + length line < length (file_content f)"
        "f1 = f\<lparr>get_pos := get_pos f + length line + 1\<rparr>"
    | (eof) "good f" "line = takeWhile (\<lambda>c. c \<noteq> newline) (drop (get_pos f) (file_content f))"
        "f1 = f\<lparr>get_pos := get_pos f + length line, eofbit := True, failbit := (line = [])\<rparr>"
proof (cases "good f")
  case False
  with assms have "f1 = f\<lparr>failbit := True\<rparr>" "line = str" by (simp_all add: getline_def)
  with False show ?thesis by (rule bad)
next
  case True
  define l where "l = takeWhile (\<lambda>c. c \<noteq> newline) (drop (get_pos f) (file_content f))"
  from assms have a: "f1 = fst (getline f str)" and b: "line = snd (getline f str)" by simp_all
  show ?thesis
  proof (cases "length l < length (drop (get_pos f) (file_content f))")
    case lt: True
    with True have eq: "getline f str = (f\<lparr>get_pos := get_pos f + length l + 1\<rparr>, l)"
      by (simp add: getline_def Let_def l_def)
    have "f1 = f\<lparr>get_pos := get_pos f + length l + 1\<rparr>" "line = l"
      unfolding a b eq by simp_all
    moreover from lt have "get_pos f + length l < length (file_content f)" by simp
    ultimately show ?thesis using True l_def by (intro nl) simp_all
  next
    case False
    with True have eq: "getline f str =
        (f\<lparr>get_pos := get_pos f + length l, eofbit := True, failbit := (l = [])\<rparr>, l)"
      by (simp add: getline_def Let_def l_def)
    have "f1 = f\<lparr>get_pos := get_pos f + length l, eofbit := True, failbit := (l = [])\<rparr>"
      "line = l"
      unfolding a b eq by simp_all
    then show ?thesis using True l_def by (intro eof) simp_all
  qed
qed

lemma getline_progress:
  assumes "getline f str = (f1, line)" "\<not> failbit f1"
  shows "length (file_content f1) - get_pos f1 + (if good f1 then 1 else 0) <
         length (file_content f) - get_pos f + (if good f then 1 else 0)"
  using assms(1)
proof (cases rule: getline_cases)
  case bad
  with assms(2) show ?thesis by simp
next
  case nl
  then show ?thesis by (simp add: good_def)
next
  case eof
  then show ?thesis by (simp add: good_def)
qed

subsection \<open>Loading\<close>

text \<open>
  The loop of the lambda \<open>get_file_offset_for_rank\<close>:
  \<open>while (getline(f, line)) { if (substr_view(line, 0, ctg_prefix.size()) == ctg_prefix) {
  getline(f, line); break; } }\<close>. It returns the stream. (\<open>substr_view\<close> is not among the
  sources; it is taken to be the substring, as its name and its other uses say.)
\<close>

function scan_to_contig :: "ifstream \<Rightarrow> string \<Rightarrow> string \<Rightarrow> ifstream" where
  "scan_to_contig f line ctg_prefix =
     (case getline f line of
        (f1, line1) \<Rightarrow>
          if failbit f1 then f1
          else if take (length ctg_prefix) line1 = ctg_prefix then fst (getline f1 line1)
          else scan_to_contig f1 line1 ctg_prefix)"
  by pat_completeness auto
termination
proof (relation "measure (\<lambda>(f, line, p). length (file_content f) - get_pos f + (if good f then 1 else 0))",
    goal_cases)
  case 1
  show ?case by simp
next
  case prems: 2
  from getline_progress[OF prems(1)[symmetric] prems(2)] show ?case by simp
qed

declare scan_to_contig.simps [simp del]

text \<open>
  \<open>get_file_offset_for_rank\<close>: the offset where a rank starts to read. It returns the stream,
  which it changes, and the offset as \<open>size_t\<close>. \<open>rank_n\<close> is the number of ranks.
\<close>

definition get_file_offset_for_rank ::
  "ifstream \<Rightarrow> nat \<Rightarrow> nat \<Rightarrow> string \<Rightarrow> nat \<Rightarrow> error + ifstream \<times> nat" where
  "get_file_offset_for_rank f rank_n rank ctg_prefix file_size =
     (if rank = 0 then Inr (f, 0)
      else if rank = rank_n then Inr (f, file_size)
      else if rank_n = 0 then Inl Division_by_zero
      else
        let offset = (file_size div rank_n * rank) mod 2 ^ 64;
            f1 = seekg f offset;
            f2 = scan_to_contig f1 [] ctg_prefix
        in Inr (fst (tellg f2), size_t_of (snd (tellg f2))))"

text \<open>
  Every turn of the loop of \<open>load_contigs\<close> that goes on moves the position forward or sets
  the end-of-file bit.
\<close>

lemma load_progress:
  assumes "\<not> eofbit f" "tellg f = (f1, p)" "\<not> stop_offset mod 2 ^ 64 \<le> size_t_of p"
    "getline f1 cname = (f2, cname')" "cname' \<noteq> []" "getline f2 seq = (f3, seq')"
  shows "(if eofbit f3 then 0 else 1 + (length (file_content f3) - get_pos f3)) <
         (if eofbit f then 0 else 1 + (length (file_content f) - get_pos f))"
proof -
  have g: "good f"
  proof (rule ccontr)
    assume "\<not> good f"
    with assms(2) have "p = - 1" by (simp add: tellg_def)
    then have "size_t_of p = 2 ^ 64 - 1" by (simp add: size_t_of_def)
    moreover have "stop_offset mod 2 ^ 64 < (2 ^ 64 :: nat)" by simp
    ultimately show False using assms(3) by linarith
  qed
  with assms(2) have f1: "f1 = f" by (simp add: tellg_def)
  from assms(4)[unfolded f1] show ?thesis
  proof (cases rule: getline_cases)
    case bad
    with g show ?thesis by simp
  next
    case eof
    then have "eofbit f2" by simp
    with assms(6) have "eofbit f3" by (auto simp: getline_def good_def)
    with assms(1) show ?thesis by simp
  next
    case nl1: nl
    from assms(6) show ?thesis
    proof (cases rule: getline_cases)
      case bad
      with nl1 g show ?thesis by (simp add: good_def)
    next
      case eof
      with assms(1) show ?thesis by simp
    next
      case nl
      with nl1 assms(1) show ?thesis by simp
    qed
  qed
qed

text \<open>
  The loop of \<open>load_contigs\<close>. \<open>cname\<close> and \<open>seq\<close> are declared outside the loop and keep their
  value when \<open>getline\<close> does not touch them. \<open>stop_offset\<close> is a \<open>size_t\<close>, hence the reduction
  modulo \<open>2 ^ 64\<close>. The id is read by \<open>strtol\<close> after the seven characters of \<open>>Contig\<close> (a
  header shorter than that is a read outside the string), the depth by \<open>strtod\<close> at the place
  where \<open>strtol\<close> stopped; \<open>strtod\<close>, which gives a \<open>double\<close>, is a parameter.
\<close>

function load_contigs_loop ::
  "(string \<Rightarrow> 'd) \<Rightarrow> ifstream \<Rightarrow> nat \<Rightarrow> string \<Rightarrow> string \<Rightarrow> 'd Contig list \<Rightarrow>
   error + ifstream \<times> 'd Contig list" where
  "load_contigs_loop strtod f stop_offset cname seq contigs =
     (if eofbit f then Inr (f, contigs)
      else
        (case tellg f of
           (f1, p) \<Rightarrow>
             if stop_offset mod 2 ^ 64 \<le> size_t_of p then Inr (f1, contigs)
             else
               (case getline f1 cname of
                  (f2, cname') \<Rightarrow>
                    if cname' = [] then Inr (f2, contigs)
                    else
                      (case getline f2 seq of
                         (f3, seq') \<Rightarrow>
                           if seq' = [] then Inr (f3, contigs)
                           else if length cname' < 7 then Inl Out_of_range
                           else
                             load_contigs_loop strtod f3 stop_offset cname' seq'
                               (contigs @
                                [\<lparr>ctg_id = fst (strtol_end (drop 7 cname')), ctg_seq = seq',
                                  ctg_depth = strtod (snd (strtol_end (drop 7 cname')))\<rparr>])))))"
  by pat_completeness auto
termination
proof (relation "measure (\<lambda>(strtod, f, stop_offset, cname, seq, contigs).
        if eofbit f then 0 else 1 + (length (file_content f) - get_pos f))", goal_cases)
  case 1
  show ?case by simp
next
  case prems: 2
  from load_progress[OF prems(1) prems(2)[symmetric] prems(3) prems(4)[symmetric] prems(5) prems(6)[symmetric]]
  show ?case by simp
qed

declare load_contigs_loop.simps [simp del]

text \<open>
  \<open>load_contigs\<close> on rank \<open>rank_me\<close> of \<open>rank_n\<close>: the file size is the length of the file; the
  start offset is computed on the rank's own stream; the stop offset is the file size on the
  last rank and otherwise the start offset that the next rank computes and sends; the stream
  is positioned at the start offset, the loop runs, and it is fatal if the stream then stands
  before the stop offset. \<open>load_contigs_all\<close> is the result on all ranks.
\<close>

definition start_offset_of :: "string \<Rightarrow> nat \<Rightarrow> nat \<Rightarrow> error + ifstream \<times> nat" where
  "start_offset_of file rank_n rank =
     get_file_offset_for_rank (ifstream_open file) rank_n rank ''>Contig'' (length file)"

definition load_contigs :: "(string \<Rightarrow> 'd) \<Rightarrow> string \<Rightarrow> nat \<Rightarrow> nat \<Rightarrow> error + 'd Contig list" where
  "load_contigs strtod file rank_n rank_me =
     (case start_offset_of file rank_n rank_me of
        Inl e \<Rightarrow> Inl e
      | Inr (ctgs_file, start_offset) \<Rightarrow>
          (case (if rank_me = rank_n - 1 then Inr (length file)
                 else map_sum id snd (start_offset_of file rank_n (rank_me + 1))) of
             Inl e \<Rightarrow> Inl e
           | Inr stop_offset \<Rightarrow>
               (case load_contigs_loop strtod (seekg ctgs_file start_offset) stop_offset [] [] [] of
                  Inl e \<Rightarrow> Inl e
                | Inr (ctgs_file', contigs) \<Rightarrow>
                    if size_t_of (snd (tellg ctgs_file')) < stop_offset mod 2 ^ 64
                    then Inl (Die ''Did not read the entire contigs file'')
                    else Inr contigs)))"

fun load_all_ranks :: "(string \<Rightarrow> 'd) \<Rightarrow> string \<Rightarrow> nat \<Rightarrow> nat list \<Rightarrow> error + 'd Contig list list" where
  "load_all_ranks strtod file rank_n [] = Inr []"
| "load_all_ranks strtod file rank_n (rank # ranks) =
     (case load_contigs strtod file rank_n rank of
        Inl e \<Rightarrow> Inl e
      | Inr contigs \<Rightarrow>
          (case load_all_ranks strtod file rank_n ranks of
             Inl e \<Rightarrow> Inl e
           | Inr rest \<Rightarrow> Inr (contigs # rest)))"

definition load_contigs_all :: "(string \<Rightarrow> 'd) \<Rightarrow> string \<Rightarrow> nat \<Rightarrow> error + 'd Contig list list" where
  "load_contigs_all strtod file rank_n = load_all_ranks strtod file rank_n [0..<rank_n]"

subsection \<open>Dumping\<close>

text \<open>
  The body of the loop of \<open>dump_contigs\<close> for one contig, and the loop: the text that one rank
  writes. A contig shorter than \<open>min_ctg_len\<close> is skipped; \<open>revcomp\<close> is called on the sequence
  (its result is not used) and is fatal on an illegal character. \<open>std::to_string\<close> on the depth,
  a \<open>double\<close>, is the parameter \<open>depth_to_string\<close>.
\<close>

definition dump_contig :: "('d \<Rightarrow> string) \<Rightarrow> nat \<Rightarrow> 'd Contig \<Rightarrow> error + string" where
  "dump_contig depth_to_string min_ctg_len ctg =
     (if length (ctg_seq ctg) < min_ctg_len then Inr []
      else
        (case revcomp (ctg_seq ctg) of
           Inl e \<Rightarrow> Inl e
         | Inr rc_uutig \<Rightarrow>
             Inr (''>Contig'' @ to_string (ctg_id ctg) @ '' '' @ depth_to_string (ctg_depth ctg) @
                  [newline] @ ctg_seq ctg @ [newline])))"

fun dump_contigs :: "('d \<Rightarrow> string) \<Rightarrow> nat \<Rightarrow> 'd Contig list \<Rightarrow> error + string" where
  "dump_contigs depth_to_string min_ctg_len [] = Inr []"
| "dump_contigs depth_to_string min_ctg_len (ctg # contigs) =
     (case dump_contig depth_to_string min_ctg_len ctg of
        Inl e \<Rightarrow> Inl e
      | Inr text \<Rightarrow>
          (case dump_contigs depth_to_string min_ctg_len contigs of
             Inl e \<Rightarrow> Inl e
           | Inr rest \<Rightarrow> Inr (text @ rest)))"

text \<open>
  Modelled from the spec: \<open>dist_ofstream\<close> is not among the sources; the file is the
  concatenation of what the ranks write.
\<close>

fun dump_contigs_all :: "('d \<Rightarrow> string) \<Rightarrow> nat \<Rightarrow> 'd Contig list list \<Rightarrow> error + string" where
  "dump_contigs_all depth_to_string min_ctg_len [] = Inr []"
| "dump_contigs_all depth_to_string min_ctg_len (contigs # ranks) =
     (case dump_contigs depth_to_string min_ctg_len contigs of
        Inl e \<Rightarrow> Inl e
      | Inr text \<Rightarrow>
          (case dump_contigs_all depth_to_string min_ctg_len ranks of
             Inl e \<Rightarrow> Inl e
           | Inr rest \<Rightarrow> Inr (text @ rest)))"

subsection \<open>Reading back what was written\<close>

text \<open>
  A record is a header line and a sequence line. It is well-formed when neither line holds a
  newline, the sequence is not empty, the header starts with \<open>>Contig\<close> and there is no other
  \<open>>\<close> in the two lines. \<open>parse_rec\<close> is the contig that the loader makes of it.
\<close>

definition rec_text :: "string \<times> string \<Rightarrow> string" where
  "rec_text r = fst r @ [newline] @ snd r @ [newline]"

definition records_text :: "(string \<times> string) list \<Rightarrow> string" where
  "records_text rs = concat (map rec_text rs)"

definition wf_rec :: "string \<times> string \<Rightarrow> bool" where
  "wf_rec r \<longleftrightarrow>
     newline \<notin> set (fst r) \<and> newline \<notin> set (snd r) \<and> snd r \<noteq> [] \<and>
     take 7 (fst r) = ''>Contig'' \<and> CHR ''>'' \<notin> set (tl (fst r)) \<and> CHR ''>'' \<notin> set (snd r)"

definition parse_rec :: "(string \<Rightarrow> 'd) \<Rightarrow> string \<times> string \<Rightarrow> 'd Contig" where
  "parse_rec strtod r =
     \<lparr>ctg_id = fst (strtol_end (drop 7 (fst r))), ctg_seq = snd r,
      ctg_depth = strtod (snd (strtol_end (drop 7 (fst r))))\<rparr>"

lemma records_text_simps [simp]:
  "records_text [] = []"
  "records_text (r # rs) = rec_text r @ records_text rs"
  "records_text (rs @ rs') = records_text rs @ records_text rs'"
  by (simp_all add: records_text_def)

text \<open>
  \<open>getline\<close> at the start of a line and at the end of the file.
\<close>

lemma getline_line:
  assumes "good f" and "drop (get_pos f) (file_content f) = l @ newline # rest"
    and "newline \<notin> set l"
  shows "getline f str = (f\<lparr>get_pos := get_pos f + length l + 1\<rparr>, l)"
proof -
  have "takeWhile (\<lambda>c. c \<noteq> newline) (l @ newline # rest) = l"
    using assms(3) by (induction l) auto
  then show ?thesis
    using assms(1) by (simp add: getline_def Let_def assms(2))
qed

lemma getline_eof:
  assumes "good f" and "drop (get_pos f) (file_content f) = []"
  shows "getline f str = (f\<lparr>eofbit := True, failbit := True\<rparr>, [])"
  using assms(1) by (simp add: getline_def Let_def assms(2))

lemma wf_rec_length: "wf_rec r \<Longrightarrow> 7 \<le> length (fst r)"
proof -
  assume "wf_rec r"
  then have "take 7 (fst r) = ''>Contig''" by (simp add: wf_rec_def)
  then have "length (take 7 (fst r)) = 7" by simp
  then show ?thesis by simp
qed

text \<open>
  The loop of the loader, started at the first of some well-formed records with the stop offset
  at their end, reads exactly these records and stops there with the stream good; with the stop
  offset beyond the end of the file it reads all the records to the end and leaves the stream
  failed.
\<close>

lemma load_contigs_loop_records:
  "good f \<Longrightarrow> file_content f = pre @ records_text rs @ post \<Longrightarrow> get_pos f = length pre \<Longrightarrow>
   stop = length pre + length (records_text rs) \<Longrightarrow> stop < 2 ^ 64 \<Longrightarrow> \<forall>r \<in> set rs. wf_rec r \<Longrightarrow>
     load_contigs_loop strtod f stop cname seq acc =
       Inr (f\<lparr>get_pos := stop\<rparr>, acc @ map (parse_rec strtod) rs)"
proof (induction rs arbitrary: f pre cname seq acc)
  case Nil
  then have t: "tellg f = (f, int (get_pos f))" by (simp add: tellg_def)
  have "size_t_of (int (get_pos f)) = stop" using Nil by (simp add: size_t_of_def)
  moreover have "stop mod 2 ^ 64 = stop" using Nil by simp
  moreover have "\<not> eofbit f" using Nil by (simp add: good_def)
  moreover have "f\<lparr>get_pos := stop\<rparr> = f" using Nil by simp
  ultimately show ?case
    by (subst load_contigs_loop.simps) (simp add: t)
next
  case (Cons r rs)
  obtain h s where r: "r = (h, s)" by (cases r)
  from Cons.prems(6) r have wf: "newline \<notin> set h" "newline \<notin> set s" "s \<noteq> []" "7 \<le> length h"
    using wf_rec_length[of r] by (simp_all add: wf_rec_def)
  then have h: "h \<noteq> []" by auto
  have ne: "\<not> eofbit f" using Cons.prems(1) by (simp add: good_def)
  have t: "tellg f = (f, int (get_pos f))" using Cons.prems(1) by (simp add: tellg_def)
  have lt: "\<not> stop mod 2 ^ 64 \<le> size_t_of (int (get_pos f))"
    using Cons.prems(3,4,5) by (simp add: size_t_of_def r rec_text_def)
  have d1: "drop (get_pos f) (file_content f) = h @ newline # (s @ newline # records_text rs @ post)"
    using Cons.prems(2,3) by (simp add: r rec_text_def)
  define f2 where "f2 = f\<lparr>get_pos := get_pos f + length h + 1\<rparr>"
  have g1: "getline f cname = (f2, h)"
    unfolding f2_def using getline_line[OF Cons.prems(1) d1 wf(1)] .
  have good2: "good f2" using Cons.prems(1) by (simp add: f2_def good_def)
  have d2: "drop (get_pos f2) (file_content f2) = s @ newline # (records_text rs @ post)"
    using Cons.prems(2,3) by (simp add: f2_def r rec_text_def)
  define f3 where "f3 = f2\<lparr>get_pos := get_pos f2 + length s + 1\<rparr>"
  have g2: "getline f2 seq = (f3, s)"
    unfolding f3_def using getline_line[OF good2 d2 wf(2)] .
  have good3: "good f3" using good2 by (simp add: f3_def good_def)
  have c3: "file_content f3 = (pre @ rec_text r) @ records_text rs @ post"
    using Cons.prems(2) by (simp add: f3_def f2_def)
  have p3: "get_pos f3 = length (pre @ rec_text r)"
    using Cons.prems(3) by (simp add: f3_def f2_def r rec_text_def)
  have st: "stop = length (pre @ rec_text r) + length (records_text rs)"
    using Cons.prems(4) by simp
  have wfs: "\<forall>r \<in> set rs. wf_rec r" using Cons.prems(6) by simp
  have rec: "load_contigs_loop strtod f3 stop h s (acc @ [parse_rec strtod r]) =
      Inr (f3\<lparr>get_pos := stop\<rparr>, (acc @ [parse_rec strtod r]) @ map (parse_rec strtod) rs)"
    by (rule Cons.IH[OF good3 c3 p3 st Cons.prems(5) wfs])
  have f3': "f3\<lparr>get_pos := stop\<rparr> = f\<lparr>get_pos := stop\<rparr>" by (simp add: f3_def f2_def)
  have pr: "\<lparr>ctg_id = fst (strtol_end (drop 7 h)), ctg_seq = s,
             ctg_depth = strtod (snd (strtol_end (drop 7 h)))\<rparr> = parse_rec strtod r"
    by (simp add: parse_rec_def r)
  show ?case
    apply (subst load_contigs_loop.simps)
    apply (simp only: ne if_False t prod.case lt g1 h g2 wf(3) pr)
    using wf(4) rec f3' by simp
qed

lemma load_contigs_loop_to_eof:
  "good f \<Longrightarrow> file_content f = pre @ records_text rs \<Longrightarrow> get_pos f = length pre \<Longrightarrow>
   length (file_content f) < stop \<Longrightarrow> stop < 2 ^ 64 \<Longrightarrow> \<forall>r \<in> set rs. wf_rec r \<Longrightarrow>
     \<exists>f'. load_contigs_loop strtod f stop cname seq acc =
       Inr (f', acc @ map (parse_rec strtod) rs) \<and> failbit f'"
proof (induction rs arbitrary: f pre cname seq acc)
  case Nil
  then have t: "tellg f = (f, int (get_pos f))" by (simp add: tellg_def)
  have lt: "\<not> stop mod 2 ^ 64 \<le> size_t_of (int (get_pos f))"
    using Nil by (simp add: size_t_of_def)
  have ne: "\<not> eofbit f" using Nil by (simp add: good_def)
  have "drop (get_pos f) (file_content f) = []" using Nil by simp
  from getline_eof[OF Nil(1) this]
  have g: "getline f cname = (f\<lparr>eofbit := True, failbit := True\<rparr>, [])" .
  show ?case
    apply (subst load_contigs_loop.simps)
    apply (simp only: ne if_False t prod.case lt g)
    by simp
next
  case (Cons r rs)
  obtain h s where r: "r = (h, s)" by (cases r)
  from Cons.prems(6) r have wf: "newline \<notin> set h" "newline \<notin> set s" "s \<noteq> []" "7 \<le> length h"
    using wf_rec_length[of r] by (simp_all add: wf_rec_def)
  then have h: "h \<noteq> []" by auto
  have ne: "\<not> eofbit f" using Cons.prems(1) by (simp add: good_def)
  have t: "tellg f = (f, int (get_pos f))" using Cons.prems(1) by (simp add: tellg_def)
  have lt: "\<not> stop mod 2 ^ 64 \<le> size_t_of (int (get_pos f))"
    using Cons.prems(2,3,4,5) by (simp add: size_t_of_def r rec_text_def)
  have d1: "drop (get_pos f) (file_content f) = h @ newline # (s @ newline # records_text rs)"
    using Cons.prems(2,3) by (simp add: r rec_text_def)
  define f2 where "f2 = f\<lparr>get_pos := get_pos f + length h + 1\<rparr>"
  have g1: "getline f cname = (f2, h)"
    unfolding f2_def using getline_line[OF Cons.prems(1) d1 wf(1)] .
  have good2: "good f2" using Cons.prems(1) by (simp add: f2_def good_def)
  have d2: "drop (get_pos f2) (file_content f2) = s @ newline # records_text rs"
    using Cons.prems(2,3) by (simp add: f2_def r rec_text_def)
  define f3 where "f3 = f2\<lparr>get_pos := get_pos f2 + length s + 1\<rparr>"
  have g2: "getline f2 seq = (f3, s)"
    unfolding f3_def using getline_line[OF good2 d2 wf(2)] .
  have good3: "good f3" using good2 by (simp add: f3_def good_def)
  have c3: "file_content f3 = (pre @ rec_text r) @ records_text rs"
    using Cons.prems(2) by (simp add: f3_def f2_def)
  have p3: "get_pos f3 = length (pre @ rec_text r)"
    using Cons.prems(3) by (simp add: f3_def f2_def r rec_text_def)
  have st: "length (file_content f3) < stop"
    using Cons.prems(4) by (simp add: f3_def f2_def)
  have wfs: "\<forall>r \<in> set rs. wf_rec r" using Cons.prems(6) by simp
  from Cons.IH[OF good3 c3 p3 st Cons.prems(5) wfs, of h s "acc @ [parse_rec strtod r]"]
  obtain f' where rec: "load_contigs_loop strtod f3 stop h s (acc @ [parse_rec strtod r]) =
      Inr (f', (acc @ [parse_rec strtod r]) @ map (parse_rec strtod) rs)" and fl: "failbit f'"
    by blast
  have pr: "\<lparr>ctg_id = fst (strtol_end (drop 7 h)), ctg_seq = s,
             ctg_depth = strtod (snd (strtol_end (drop 7 h)))\<rparr> = parse_rec strtod r"
    by (simp add: parse_rec_def r)
  have "load_contigs_loop strtod f stop cname seq acc = Inr (f', acc @ map (parse_rec strtod) (r # rs))"
    apply (subst load_contigs_loop.simps)
    apply (simp only: ne if_False t prod.case lt g1 h g2 wf(3) pr)
    using wf(4) rec by simp
  with fl show ?case by blast
qed


text \<open>
  The scan for the start offset, from an offset \<open>off\<close> into some well-formed records: when \<open>off\<close>
  is the start of a record, the scan stops after this record; when it is inside a record, after
  the record that follows; \<open>scan_index\<close> is the number of records before the place where it
  stops, and there is none when no header follows \<open>off\<close>, in which case the scan runs into the
  end of the file.
\<close>

fun scan_index :: "nat \<Rightarrow> (string \<times> string) list \<Rightarrow> nat option" where
  "scan_index off [] = None"
| "scan_index off (r # rs) =
     (if off = 0 then Some 1
      else if off < length (rec_text r) then (if rs = [] then None else Some 2)
      else map_option Suc (scan_index (off - length (rec_text r)) rs))"

lemma no_prefix: "CHR ''>'' \<notin> set x \<Longrightarrow> take (length ''>Contig'') x \<noteq> ''>Contig''"
proof
  assume a: "CHR ''>'' \<notin> set x" and b: "take (length ''>Contig'') x = ''>Contig''"
  have "CHR ''>'' \<in> set (take (length ''>Contig'') x)" unfolding b by simp
  then have "CHR ''>'' \<in> set x" by (rule in_set_takeD)
  with a show False by simp
qed

lemma scan_at_end:
  assumes "good f" "file_content f = pre" "get_pos f = length pre"
  shows "failbit (scan_to_contig f line ''>Contig'')"
proof -
  have "drop (get_pos f) (file_content f) = []" using assms by simp
  from getline_eof[OF assms(1) this]
  have g: "getline f line = (f\<lparr>eofbit := True, failbit := True\<rparr>, [])" .
  show ?thesis by (subst scan_to_contig.simps) (simp add: g)
qed

lemma scan_at_record:
  assumes "good f" "file_content f = pre @ rec_text r @ rest" "get_pos f = length pre" "wf_rec r"
  shows "scan_to_contig f line ''>Contig'' = f\<lparr>get_pos := length pre + length (rec_text r)\<rparr>"
proof -
  obtain h s where r: "r = (h, s)" by (cases r)
  from assms(4) r have wf: "newline \<notin> set h" "newline \<notin> set s" "take 7 h = ''>Contig''"
    by (simp_all add: wf_rec_def)
  have d1: "drop (get_pos f) (file_content f) = h @ newline # (s @ newline # rest)"
    using assms(2,3) by (simp add: r rec_text_def)
  define f2 where "f2 = f\<lparr>get_pos := get_pos f + length h + 1\<rparr>"
  have g1: "getline f line = (f2, h)"
    unfolding f2_def using getline_line[OF assms(1) d1 wf(1)] .
  have good2: "good f2" using assms(1) by (simp add: f2_def good_def)
  have nf2: "\<not> failbit f2" using good2 by (simp add: good_def)
  have d2: "drop (get_pos f2) (file_content f2) = s @ newline # rest"
    using assms(2,3) by (simp add: f2_def r rec_text_def)
  have g2: "getline f2 h = (f2\<lparr>get_pos := get_pos f2 + length s + 1\<rparr>, s)"
    using getline_line[OF good2 d2 wf(2)] .
  have "length ''>Contig'' = (7::nat)" by simp
  then have m: "take (length ''>Contig'') h = ''>Contig''" using wf(3) by (simp only:)
  have "scan_to_contig f line ''>Contig'' = f2\<lparr>get_pos := get_pos f2 + length s + 1\<rparr>"
    apply (subst scan_to_contig.simps)
    apply (simp only: g1 prod.case nf2 if_False m g2 fst_conv)
    by simp
  also have "\<dots> = f\<lparr>get_pos := length pre + length (rec_text r)\<rparr>"
    using assms(3) by (simp add: f2_def r rec_text_def)
  finally show ?thesis .
qed

lemma drop_in_record:
  "file_content f = pre @ mid @ rest \<Longrightarrow> get_pos f = length pre + off \<Longrightarrow> off \<le> length mid \<Longrightarrow>
     drop (get_pos f) (file_content f) = drop off mid @ rest"
  by simp

lemma scan_inside_record:
  assumes "good f" "file_content f = pre @ rec_text r @ rest" "get_pos f = length pre + off"
    "0 < off" "off < length (rec_text r)" "wf_rec r"
  shows "\<exists>line'. scan_to_contig f line ''>Contig'' =
           scan_to_contig (f\<lparr>get_pos := length pre + length (rec_text r)\<rparr>) line' ''>Contig''"
proof -
  obtain h s where r: "r = (h, s)" by (cases r)
  from assms(6) r have wf: "newline \<notin> set h" "newline \<notin> set s"
    "CHR ''>'' \<notin> set (tl h)" "CHR ''>'' \<notin> set s"
    by (simp_all add: wf_rec_def)
  have seq_line: "\<exists>line'. scan_to_contig g l0 ''>Contig'' =
           scan_to_contig (f\<lparr>get_pos := length pre + length (rec_text r)\<rparr>) line' ''>Contig''"
    if g: "g = f\<lparr>get_pos := length pre + length h + 1 + j\<rparr>" and j: "j \<le> length s" for g l0 j
  proof -
    have gg: "good g" using assms(1) by (simp add: g good_def)
    have "drop (length h + 1 + j) (rec_text r) = drop j s @ [newline]"
      using j by (simp add: r rec_text_def)
    moreover have "length (rec_text r) = length h + length s + 2" by (simp add: r rec_text_def)
    moreover have "drop (get_pos g) (file_content g) = drop (length h + 1 + j) (rec_text r) @ rest"
      using j by (intro drop_in_record) (simp_all add: g assms(2) r rec_text_def)
    ultimately have d: "drop (get_pos g) (file_content g) = drop j s @ newline # rest"
      by simp
    have nl: "newline \<notin> set (drop j s)" using wf(2) by (auto dest: in_set_dropD)
    have gt: "CHR ''>'' \<notin> set (drop j s)" using wf(4) by (auto dest: in_set_dropD)
    define g2 where "g2 = g\<lparr>get_pos := get_pos g + length (drop j s) + 1\<rparr>"
    have g1: "getline g l0 = (g2, drop j s)"
      unfolding g2_def using getline_line[OF gg d nl] .
    have nf: "\<not> failbit g2" using gg by (simp add: g2_def good_def)
    have "scan_to_contig g l0 ''>Contig'' = scan_to_contig g2 (drop j s) ''>Contig''"
      by (subst scan_to_contig.simps) (simp only: g1 prod.case nf if_False no_prefix[OF gt])
    moreover have "g2 = f\<lparr>get_pos := length pre + length (rec_text r)\<rparr>"
      using j by (simp add: g2_def g r rec_text_def)
    ultimately show ?thesis by auto
  qed
  show ?thesis
  proof (cases "off \<le> length h")
    case True
    have "drop off (rec_text r) = drop off h @ newline # (s @ [newline])"
      using True by (simp add: r rec_text_def)
    moreover have "drop (get_pos f) (file_content f) = drop off (rec_text r) @ rest"
      using assms(5) by (intro drop_in_record[OF assms(2,3)]) simp
    ultimately have d: "drop (get_pos f) (file_content f) = drop off h @ newline # (s @ newline # rest)"
      by simp
    have "set (drop off h) \<subseteq> set (tl h)"
      using assms(4) by (cases h; cases off) (auto dest: in_set_dropD)
    with wf(3) have gt: "CHR ''>'' \<notin> set (drop off h)" by auto
    have nl: "newline \<notin> set (drop off h)" using wf(1) by (auto dest: in_set_dropD)
    define f2 where "f2 = f\<lparr>get_pos := get_pos f + length (drop off h) + 1\<rparr>"
    have g1: "getline f line = (f2, drop off h)"
      unfolding f2_def using getline_line[OF assms(1) d nl] .
    have nf: "\<not> failbit f2" using assms(1) by (simp add: f2_def good_def)
    have 1: "scan_to_contig f line ''>Contig'' = scan_to_contig f2 (drop off h) ''>Contig''"
      by (subst scan_to_contig.simps) (simp only: g1 prod.case nf if_False no_prefix[OF gt])
    have "f2 = f\<lparr>get_pos := length pre + length h + 1 + 0\<rparr>"
      using True assms(3) by (simp add: f2_def)
    from seq_line[OF this, of "drop off h"] 1 show ?thesis by simp
  next
    case False
    define j where "j = off - (length h + 1)"
    from False have off: "off = length h + 1 + j" by (simp add: j_def)
    from assms(5) off have j: "j \<le> length s" by (simp add: r rec_text_def)
    have "f = f\<lparr>get_pos := length pre + length h + 1 + j\<rparr>"
      using assms(3) off by simp
    from seq_line[OF this j, of line] show ?thesis .
  qed
qed

lemma scan_to_contig_index:
  "good f \<Longrightarrow> file_content f = pre @ records_text rs \<Longrightarrow> get_pos f = length pre + off \<Longrightarrow>
   off \<le> length (records_text rs) \<Longrightarrow> \<forall>r \<in> set rs. wf_rec r \<Longrightarrow>
     (case scan_index off rs of
        Some k \<Rightarrow> k \<le> length rs \<and>
          scan_to_contig f line ''>Contig'' = f\<lparr>get_pos := length pre + length (records_text (take k rs))\<rparr>
      | None \<Rightarrow> failbit (scan_to_contig f line ''>Contig''))"
proof (induction rs arbitrary: f pre off line)
  case Nil
  then show ?case using scan_at_end[of f pre line] by simp
next
  case (Cons r rs)
  have wfr: "wf_rec r" and wfs: "\<forall>r \<in> set rs. wf_rec r" using Cons.prems(5) by simp_all
  have c: "file_content f = pre @ rec_text r @ records_text rs" using Cons.prems(2) by simp
  show ?case
  proof (cases "off = 0")
    case True
    from scan_at_record[OF Cons.prems(1) c _ wfr, of line] Cons.prems(3) True
    show ?thesis by simp
  next
    case pos: False
    show ?thesis
    proof (cases "off < length (rec_text r)")
      case True
      from scan_inside_record[OF Cons.prems(1) c Cons.prems(3) _ True wfr, of line] pos
      obtain line' where 1: "scan_to_contig f line ''>Contig'' =
           scan_to_contig (f\<lparr>get_pos := length pre + length (rec_text r)\<rparr>) line' ''>Contig''"
        by auto
      let ?g = "f\<lparr>get_pos := length pre + length (rec_text r)\<rparr>"
      have gg: "good ?g" using Cons.prems(1) by (simp add: good_def)
      show ?thesis
      proof (cases rs)
        case Nil
        have "failbit (scan_to_contig ?g line' ''>Contig'')"
          by (rule scan_at_end[OF gg, of "pre @ rec_text r"]) (simp_all add: c Nil)
        with 1 pos True Nil show ?thesis by simp
      next
        case (Cons r2 rs2)
        have wf2: "wf_rec r2" using wfs Cons by simp
        have "scan_to_contig ?g line' ''>Contig'' =
            ?g\<lparr>get_pos := length (pre @ rec_text r) + length (rec_text r2)\<rparr>"
          by (rule scan_at_record[OF gg _ _ wf2, of _ "records_text rs2"]) (simp_all add: c Cons)
        with 1 pos True Cons show ?thesis by simp
      qed
    next
      case False
      define off' where "off' = off - length (rec_text r)"
      have c': "file_content f = (pre @ rec_text r) @ records_text rs" using c by simp
      have p': "get_pos f = length (pre @ rec_text r) + off'"
        using Cons.prems(3) False by (simp add: off'_def)
      have le': "off' \<le> length (records_text rs)" using Cons.prems(4) False by (simp add: off'_def)
      note IH = Cons.IH[OF Cons.prems(1) c' p' le' wfs, of line]
      show ?thesis
      proof (cases "scan_index off' rs")
        case None
        with IH pos False show ?thesis by (simp add: off'_def)
      next
        case (Some k)
        with IH pos False show ?thesis by (simp add: off'_def)
      qed
    qed
  qed
qed

text \<open>
  The number of records before the start of a rank, the whole number of records when the scan
  found no header. It grows with the offset, hence with the rank.
\<close>

definition start_index :: "nat \<Rightarrow> (string \<times> string) list \<Rightarrow> nat" where
  "start_index off rs = (case scan_index off rs of Some k \<Rightarrow> k | None \<Rightarrow> length rs)"

lemma start_index_Cons:
  "start_index off (r # rs) =
     (if off = 0 then 1
      else if off < length (rec_text r) then (if rs = [] then 1 else 2)
      else Suc (start_index (off - length (rec_text r)) rs))"
  by (simp add: start_index_def split: option.splits)

lemma start_index_le: "start_index off rs \<le> length rs"
proof (induction rs arbitrary: off)
  case Nil
  then show ?case by (simp add: start_index_def)
next
  case (Cons r rs)
  have "rs \<noteq> [] \<Longrightarrow> Suc 0 \<le> length rs" by (cases rs) simp_all
  with Cons.IH[of "off - length (rec_text r)"] show ?case
    by (auto simp: start_index_Cons)
qed

lemma start_index_pos: "rs \<noteq> [] \<Longrightarrow> 0 < start_index off rs"
  by (cases rs) (simp_all add: start_index_Cons)

lemma start_index_mono: "off \<le> off' \<Longrightarrow> start_index off rs \<le> start_index off' rs"
proof (induction rs arbitrary: off off')
  case Nil
  then show ?case by (simp add: start_index_def)
next
  case (Cons r rs)
  show ?case
  proof (cases "off' < length (rec_text r)")
    case True
    with Cons.prems show ?thesis by (auto simp: start_index_Cons)
  next
    case False
    show ?thesis
    proof (cases "off < length (rec_text r)")
      case True
      have "rs \<noteq> [] \<Longrightarrow> 0 < start_index (off' - length (rec_text r)) rs"
        by (rule start_index_pos)
      with True False Cons.prems show ?thesis
        by (auto simp: start_index_Cons)
    next
      case off: False
      have "off - length (rec_text r) \<le> off' - length (rec_text r)" using Cons.prems by simp
      from Cons.IH[OF this] off False Cons.prems show ?thesis
        by (auto simp: start_index_Cons)
    qed
  qed
qed

definition rank_index :: "nat \<Rightarrow> nat \<Rightarrow> (string \<times> string) list \<Rightarrow> nat option" where
  "rank_index rank_n rank rs =
     (if rank = 0 then Some 0 else scan_index (length (records_text rs) div rank_n * rank) rs)"

definition rank_start :: "nat \<Rightarrow> nat \<Rightarrow> (string \<times> string) list \<Rightarrow> nat" where
  "rank_start rank_n rank rs =
     (if rank_n \<le> rank then length rs
      else case rank_index rank_n rank rs of Some k \<Rightarrow> k | None \<Rightarrow> length rs)"

lemma rank_start_le: "rank_start rank_n rank rs \<le> length rs"
  using start_index_le[of "length (records_text rs) div rank_n * rank" rs]
  by (auto simp: rank_start_def rank_index_def start_index_def split: option.splits)

lemma rank_start_mono: "rank_start rank_n rank rs \<le> rank_start rank_n (Suc rank) rs"
proof (cases "rank_n \<le> Suc rank")
  case True
  then show ?thesis using rank_start_le[of rank_n rank rs] by (simp add: rank_start_def)
next
  case False
  show ?thesis
  proof (cases "rank = 0")
    case True
    with False show ?thesis by (simp add: rank_start_def rank_index_def)
  next
    case pos: False
    let ?q = "length (records_text rs) div rank_n"
    have "?q * rank \<le> ?q * Suc rank" by simp
    from start_index_mono[OF this, of rs] False pos show ?thesis
      by (simp add: rank_start_def rank_index_def start_index_def)
  qed
qed

text \<open>
  The start offset of each rank.
\<close>

lemma offset_le:
  assumes "rank < rank_n"
  shows "(n :: nat) div rank_n * rank \<le> n"
proof -
  have "n div rank_n * rank \<le> n div rank_n * rank_n" using assms by simp
  also have "\<dots> \<le> n" by simp
  finally show ?thesis .
qed

lemma size_t_of_nat: "n < 2 ^ 64 \<Longrightarrow> size_t_of (int n) = n"
  by (simp add: size_t_of_def nat_mod_distrib)

lemma size_t_of_minus1: "size_t_of (- 1) = 2 ^ 64 - 1"
  by (simp add: size_t_of_def)

lemma start_offset_of_index:
  assumes wf: "\<forall>r \<in> set rs. wf_rec r" and sz: "length (records_text rs) < 2 ^ 63"
    and rk: "rank < rank_n"
  shows "case rank_index rank_n rank rs of
           Some k \<Rightarrow> k \<le> length rs \<and>
             start_offset_of (records_text rs) rank_n rank =
               Inr ((ifstream_open (records_text rs))\<lparr>get_pos := length (records_text (take k rs))\<rparr>,
                    length (records_text (take k rs)))
         | None \<Rightarrow> (\<exists>f. start_offset_of (records_text rs) rank_n rank = Inr (f, 2 ^ 64 - 1) \<and> failbit f)"
proof (cases "rank = 0")
  case True
  then show ?thesis
    by (simp add: rank_index_def start_offset_of_def get_file_offset_for_rank_def ifstream_open_def)
next
  case False
  define fl where "fl = records_text rs"
  define off where "off = length fl div rank_n * rank"
  have le: "off \<le> length fl" unfolding off_def using rk by (rule offset_le)
  have off64: "off mod 2 ^ 64 = off" using le sz by (simp add: fl_def)
  define f1 where "f1 = (ifstream_open fl)\<lparr>get_pos := off\<rparr>"
  have sk: "seekg (ifstream_open fl) off = f1"
    using le sz by (simp add: seekg_def ifstream_open_def f1_def fl_def Let_def)
  have g1: "good f1" by (simp add: f1_def good_def ifstream_open_def)
  have c1: "file_content f1 = [] @ records_text rs" by (simp add: f1_def ifstream_open_def fl_def)
  have p1: "get_pos f1 = length ([] :: string) + off" by (simp add: f1_def)
  have le': "off \<le> length (records_text rs)" using le by (simp add: fl_def)
  note sc = scan_to_contig_index[OF g1 c1 p1 le' wf, of "[]"]
  have so: "start_offset_of fl rank_n rank =
      Inr (fst (tellg (scan_to_contig f1 [] ''>Contig'')), size_t_of (snd (tellg (scan_to_contig f1 [] ''>Contig''))))"
    using False rk unfolding start_offset_of_def get_file_offset_for_rank_def Let_def off_def[symmetric] off64 sk
    by simp
  have ri: "rank_index rank_n rank rs = scan_index off rs"
    using False by (simp add: rank_index_def off_def fl_def)
  show ?thesis
  proof (cases "scan_index off rs")
    case None
    with sc have fb: "failbit (scan_to_contig f1 [] ''>Contig'')" by simp
    then have "tellg (scan_to_contig f1 [] ''>Contig'') = ((scan_to_contig f1 [] ''>Contig'')\<lparr>failbit := True\<rparr>, - 1)"
      by (simp add: tellg_def good_def)
    with so have "start_offset_of fl rank_n rank =
        Inr ((scan_to_contig f1 [] ''>Contig'')\<lparr>failbit := True\<rparr>, 2 ^ 64 - 1)"
      by (simp add: size_t_of_minus1)
    then show ?thesis unfolding ri None fl_def by auto
  next
    case (Some k)
    with sc have k: "k \<le> length rs"
      and s: "scan_to_contig f1 [] ''>Contig'' = f1\<lparr>get_pos := length (records_text (take k rs))\<rparr>"
      by simp_all
    have "length (records_text (take k rs)) \<le> length (records_text rs)"
      by (metis append_take_drop_id le_add1 length_append records_text_simps(3))
    with sz have b: "length (records_text (take k rs)) < 2 ^ 64" by simp
    have "good (f1\<lparr>get_pos := length (records_text (take k rs))\<rparr>)" using g1 by (simp add: good_def)
    then have "tellg (scan_to_contig f1 [] ''>Contig'') =
        (f1\<lparr>get_pos := length (records_text (take k rs))\<rparr>, int (length (records_text (take k rs))))"
      unfolding s by (simp add: tellg_def)
    with so have "start_offset_of fl rank_n rank =
        Inr (f1\<lparr>get_pos := length (records_text (take k rs))\<rparr>, length (records_text (take k rs)))"
      by (simp add: size_t_of_nat[OF b])
    with k show ?thesis unfolding ri Some fl_def f1_def by simp
  qed
qed

text \<open>
  Each rank loads the records from its start to the start of the next rank, and all ranks
  together load every record once, in the order of the file.
\<close>

lemma records_text_take_le: "length (records_text (take k rs)) \<le> length (records_text rs)"
proof -
  have "records_text rs = records_text (take k rs) @ records_text (drop k rs)"
    by (simp only: records_text_simps(3)[symmetric] append_take_drop_id)
  then show ?thesis by simp
qed

lemma records_text_split:
  assumes "k \<le> j"
  shows "records_text rs =
           records_text (take k rs) @ records_text (drop k (take j rs)) @ records_text (drop j rs)"
proof -
  have "take k rs = take k (take j rs)" using assms by (simp add: min_def)
  then have "take k rs @ drop k (take j rs) = take j rs" by (simp only: append_take_drop_id)
  then have "rs = take k rs @ drop k (take j rs) @ drop j rs"
    by (metis append_assoc append_take_drop_id)
  then have "records_text rs = records_text (take k rs @ drop k (take j rs) @ drop j rs)" by simp
  then show ?thesis by (simp only: records_text_simps(3))
qed

lemma load_contigs_rank:
  assumes wf: "\<forall>r \<in> set rs. wf_rec r" and sz: "length (records_text rs) < 2 ^ 63"
    and rk: "rank < rank_n"
  shows "load_contigs strtod (records_text rs) rank_n rank =
           Inr (map (parse_rec strtod)
                  (drop (rank_start rank_n rank rs) (take (rank_start rank_n (Suc rank) rs) rs)))"
proof -
  define fl where "fl = records_text rs"
  define k where "k = rank_start rank_n rank rs"
  define j where "j = rank_start rank_n (Suc rank) rs"
  have kj: "k \<le> j" unfolding k_def j_def by (rule rank_start_mono)
  have jn: "j \<le> length rs" unfolding j_def by (rule rank_start_le)
  have sz64: "length fl < 2 ^ 64 - 1" using sz by (simp add: fl_def)

  have stop: "\<exists>stop_offset.
      (if rank = rank_n - 1 then Inr (length fl)
       else map_sum id snd (start_offset_of fl rank_n (rank + 1))) = Inr stop_offset \<and>
      (stop_offset = length (records_text (take j rs)) \<or> (stop_offset = 2 ^ 64 - 1 \<and> j = length rs))"
  proof (cases "rank = rank_n - 1")
    case True
    then have "j = length rs" using rk by (simp add: j_def rank_start_def)
    with True show ?thesis by (simp add: fl_def)
  next
    case False
    with rk have rk': "Suc rank < rank_n" by simp
    note so = start_offset_of_index[OF wf sz rk']
    show ?thesis
    proof (cases "rank_index rank_n (Suc rank) rs")
      case None
      with so obtain f where "start_offset_of fl rank_n (Suc rank) = Inr (f, 2 ^ 64 - 1)"
        by (auto simp: fl_def)
      moreover have "j = length rs" using None rk' by (simp add: j_def rank_start_def)
      ultimately show ?thesis using False by simp
    next
      case (Some j')
      with so have "start_offset_of fl rank_n (Suc rank) =
          Inr ((ifstream_open fl)\<lparr>get_pos := length (records_text (take j' rs))\<rparr>,
               length (records_text (take j' rs)))"
        by (simp add: fl_def)
      moreover have "j = j'" using Some rk' by (simp add: j_def rank_start_def)
      ultimately show ?thesis using False by simp
    qed
  qed
  then obtain stop_offset where
    st: "(if rank = rank_n - 1 then Inr (length fl)
       else map_sum id snd (start_offset_of fl rank_n (rank + 1))) = Inr stop_offset"
    and sv: "stop_offset = length (records_text (take j rs)) \<or> (stop_offset = 2 ^ 64 - 1 \<and> j = length rs)"
    by blast
  have st64: "stop_offset < 2 ^ 64"
    using sv records_text_take_le[of j rs] sz by auto
  note so = start_offset_of_index[OF wf sz rk]
  show ?thesis
  proof (cases "rank_index rank_n rank rs")
    case None
    with so obtain f where f: "start_offset_of fl rank_n rank = Inr (f, 2 ^ 64 - 1)" and fb: "failbit f"
      by (auto simp: fl_def)
    have kn: "k = length rs" using None rk by (simp add: k_def rank_start_def)
    define f1 where "f1 = f\<lparr>eofbit := False\<rparr>"
    have sk: "seekg f (2 ^ 64 - 1) = f1" using fb by (simp add: seekg_def f1_def Let_def)
    have ng: "\<not> good f1" using fb by (simp add: f1_def good_def)
    have t: "tellg f1 = (f1\<lparr>failbit := True\<rparr>, - 1)" using ng by (simp add: tellg_def)
    have ne: "\<not> eofbit f1" by (simp add: f1_def)
    have le: "stop_offset mod 2 ^ 64 \<le> size_t_of (- 1)"
      using st64 by (simp add: size_t_of_minus1)
    have loop: "load_contigs_loop strtod f1 stop_offset [] [] [] = Inr (f1\<lparr>failbit := True\<rparr>, [])"
      apply (subst load_contigs_loop.simps)
      apply (simp only: ne if_False t prod.case le if_True)
      done
    have t2: "tellg (f1\<lparr>failbit := True\<rparr>) = (f1\<lparr>failbit := True\<rparr>, - 1)"
      by (simp add: tellg_def good_def)
    have nd: "\<not> size_t_of (snd (tellg (f1\<lparr>failbit := True\<rparr>))) < stop_offset"
      using st64 by (simp add: t2 size_t_of_minus1)
    have "load_contigs strtod fl rank_n rank = Inr []"
      unfolding load_contigs_def f sum.case prod.case st sk loop using nd by simp
    then show ?thesis using kn unfolding fl_def k_def by simp
  next
    case (Some k')
    have kk: "k = k'" using Some rk by (simp add: k_def rank_start_def)
    define f where "f = (ifstream_open fl)\<lparr>get_pos := length (records_text (take k rs))\<rparr>"
    from so Some kk have so': "start_offset_of fl rank_n rank = Inr (f, length (records_text (take k rs)))"
      by (simp add: fl_def f_def)
    have b63: "length (records_text (take k rs)) < 2 ^ 63"
      using records_text_take_le[of k rs] sz by simp
    have sk: "seekg f (length (records_text (take k rs))) = f"
      using b63 by (simp add: seekg_def f_def ifstream_open_def Let_def)
    have gf: "good f" by (simp add: f_def good_def ifstream_open_def)
    have pf: "get_pos f = length (records_text (take k rs))" by (simp add: f_def)
    from sv show ?thesis
    proof
      assume sfin: "stop_offset = length (records_text (take j rs))"
      have cf: "file_content f =
          records_text (take k rs) @ records_text (drop k (take j rs)) @ records_text (drop j rs)"
        using records_text_split[OF kj, of rs] by (simp add: f_def ifstream_open_def fl_def)
      have "take j rs = take k rs @ drop k (take j rs)"
        using kj by (metis append_take_drop_id min.absorb2 take_take min.commute)
      then have "records_text (take j rs) = records_text (take k rs) @ records_text (drop k (take j rs))"
        by (metis records_text_simps(3))
      then have sl: "stop_offset = length (records_text (take k rs)) + length (records_text (drop k (take j rs)))"
        using sfin by simp
      have wf': "\<forall>r \<in> set (drop k (take j rs)). wf_rec r"
        using wf by (auto dest!: in_set_dropD in_set_takeD)
      from load_contigs_loop_records[OF gf cf pf sl st64 wf', of strtod "[]" "[]" "[]"]
      have loop: "load_contigs_loop strtod f stop_offset [] [] [] =
          Inr (f\<lparr>get_pos := stop_offset\<rparr>, map (parse_rec strtod) (drop k (take j rs)))" by simp
      have t2: "tellg (f\<lparr>get_pos := stop_offset\<rparr>) = (f\<lparr>get_pos := stop_offset\<rparr>, int stop_offset)"
        using gf by (simp add: tellg_def good_def)
      have nd: "\<not> size_t_of (snd (tellg (f\<lparr>get_pos := stop_offset\<rparr>))) < stop_offset"
        by (simp add: t2 size_t_of_nat[OF st64])
      have "load_contigs strtod fl rank_n rank = Inr (map (parse_rec strtod) (drop k (take j rs)))"
        unfolding load_contigs_def so' sum.case prod.case st sk loop using nd by simp
      then show ?thesis unfolding fl_def k_def j_def .
    next
      assume sinf: "stop_offset = 2 ^ 64 - 1 \<and> j = length rs"
      have cf: "file_content f = records_text (take k rs) @ records_text (drop k rs)"
        by (simp add: f_def ifstream_open_def fl_def records_text_simps(3)[symmetric]
            del: records_text_simps(3))
      have lt: "length (file_content f) < stop_offset"
        using sinf sz64 by (simp add: f_def ifstream_open_def)
      have wf': "\<forall>r \<in> set (drop k rs). wf_rec r"
        using wf by (auto dest!: in_set_dropD)
      from load_contigs_loop_to_eof[OF gf cf pf lt st64 wf', of strtod "[]" "[]" "[]"]
      obtain f' where loop: "load_contigs_loop strtod f stop_offset [] [] [] =
          Inr (f', map (parse_rec strtod) (drop k rs))" and fb: "failbit f'" by auto
      have t2: "tellg f' = (f'\<lparr>failbit := True\<rparr>, - 1)" using fb by (simp add: tellg_def good_def)
      have nd: "\<not> size_t_of (snd (tellg f')) < stop_offset"
        using sinf by (simp add: t2 size_t_of_minus1)
      have "load_contigs strtod fl rank_n rank = Inr (map (parse_rec strtod) (drop k rs))"
        unfolding load_contigs_def so' sum.case prod.case st sk loop using nd by simp
      moreover have "drop k (take j rs) = drop k rs" using sinf by simp
      ultimately show ?thesis unfolding fl_def k_def j_def by simp
    qed
  qed
qed

lemma load_all_ranks_records:
  assumes wf: "\<forall>r \<in> set rs. wf_rec r" and sz: "length (records_text rs) < 2 ^ 63"
  shows "\<forall>rank \<in> set ranks. rank < rank_n \<Longrightarrow>
         load_all_ranks strtod (records_text rs) rank_n ranks =
           Inr (map (\<lambda>rank. map (parse_rec strtod)
                  (drop (rank_start rank_n rank rs) (take (rank_start rank_n (Suc rank) rs) rs))) ranks)"
proof (induction ranks)
  case Nil
  then show ?case by simp
next
  case (Cons rank ranks)
  then have rk: "rank < rank_n" by simp
  from Cons show ?case by (simp add: load_contigs_rank[OF wf sz rk])
qed

lemma drop_take_chain:
  assumes "a \<le> b" "b \<le> c"
  shows "drop a (take b xs) @ drop b (take c xs) = drop a (take c xs)"
proof -
  have "take c xs = take b xs @ drop b (take c xs)"
    using assms(2) by (metis append_take_drop_id min.absorb2 take_take min.commute)
  then have "drop a (take c xs) = drop a (take b xs @ drop b (take c xs))" by simp
  also have "\<dots> = drop a (take b xs) @ drop (a - length (take b xs)) (drop b (take c xs))" by simp
  also have "drop (a - length (take b xs)) (drop b (take c xs)) = drop b (take c xs)"
  proof (cases "b \<le> length xs")
    case True
    with assms(1) show ?thesis by simp
  next
    case False
    then show ?thesis by simp
  qed
  finally show ?thesis by simp
qed

lemma concat_blocks_by_index:
  assumes "\<And>r. k r \<le> k (Suc r)"
  shows "k 0 \<le> k m \<and> concat (map (\<lambda>r. drop (k r) (take (k (Suc r)) xs)) [0..<m]) = drop (k 0) (take (k m) xs)"
proof (induction m)
  case 0
  then show ?case by simp
next
  case (Suc m)
  then have le: "k 0 \<le> k m" and IH: "concat (map (\<lambda>r. drop (k r) (take (k (Suc r)) xs)) [0..<m]) = drop (k 0) (take (k m) xs)"
    by simp_all
  have "concat (map (\<lambda>r. drop (k r) (take (k (Suc r)) xs)) [0..<Suc m]) =
      drop (k 0) (take (k m) xs) @ drop (k m) (take (k (Suc m)) xs)"
    using IH by simp
  also have "\<dots> = drop (k 0) (take (k (Suc m)) xs)"
    by (rule drop_take_chain[OF le assms])
  finally show ?case using le assms[of m] by simp
qed

lemma load_contigs_all_records:
  assumes wf: "\<forall>r \<in> set rs. wf_rec r" and sz: "length (records_text rs) < 2 ^ 63"
    and n: "0 < rank_n"
  shows "\<exists>loaded. load_contigs_all strtod (records_text rs) rank_n = Inr loaded \<and>
           length loaded = rank_n \<and> concat loaded = map (parse_rec strtod) rs"
proof -
  let ?blocks = "map (\<lambda>rank. drop (rank_start rank_n rank rs) (take (rank_start rank_n (Suc rank) rs) rs)) [0..<rank_n]"
  have l: "load_contigs_all strtod (records_text rs) rank_n = Inr (map (map (parse_rec strtod)) ?blocks)"
    unfolding load_contigs_all_def
    using load_all_ranks_records[OF wf sz, of "[0..<rank_n]" rank_n strtod] by (simp add: comp_def)
  have "concat ?blocks = drop (rank_start rank_n 0 rs) (take (rank_start rank_n rank_n rs) rs)"
    using concat_blocks_by_index[of "\<lambda>r. rank_start rank_n r rs" rank_n rs] rank_start_mono
    by simp
  moreover have "rank_start rank_n 0 rs = 0" using n by (simp add: rank_start_def rank_index_def)
  moreover have "rank_start rank_n rank_n rs = length rs" by (simp add: rank_start_def)
  ultimately have "concat ?blocks = rs" by simp
  then have "concat (map (map (parse_rec strtod)) ?blocks) = map (parse_rec strtod) rs"
    by (simp only: map_concat[symmetric])
  with l show ?thesis by simp
qed

text \<open>
  The record that \<open>dump_contigs\<close> writes for a contig, the contigs that it writes, and the
  contig as it is loaded again: the same id and sequence, and the depth that \<open>strtod\<close> reads
  from the text of the header.
\<close>

definition contig_record :: "('d \<Rightarrow> string) \<Rightarrow> 'd Contig \<Rightarrow> string \<times> string" where
  "contig_record depth_to_string ctg =
     (''>Contig'' @ to_string (ctg_id ctg) @ '' '' @ depth_to_string (ctg_depth ctg), ctg_seq ctg)"

definition dumped :: "nat \<Rightarrow> 'd Contig list \<Rightarrow> 'd Contig list" where
  "dumped min_ctg_len contigs = filter (\<lambda>ctg. min_ctg_len \<le> length (ctg_seq ctg)) contigs"

definition reloaded :: "('d \<Rightarrow> string) \<Rightarrow> (string \<Rightarrow> 'd) \<Rightarrow> 'd Contig \<Rightarrow> 'd Contig" where
  "reloaded depth_to_string strtod ctg =
     \<lparr>ctg_id = ctg_id ctg, ctg_seq = ctg_seq ctg,
      ctg_depth = strtod (CHR '' '' # depth_to_string (ctg_depth ctg))\<rparr>"

lemma dump_contig_text:
  assumes "dump_contig dts m ctg = Inr t"
  shows "t = records_text (map (contig_record dts) (dumped m [ctg])) \<and>
         (\<forall>c \<in> set (dumped m [ctg]). \<exists>rc. revcomp (ctg_seq c) = Inr rc)"
proof (cases "length (ctg_seq ctg) < m")
  case True
  with assms show ?thesis by (simp add: dump_contig_def dumped_def)
next
  case False
  with assms obtain rc where rc: "revcomp (ctg_seq ctg) = Inr rc"
    by (auto simp: dump_contig_def split: sum.splits)
  with assms False show ?thesis
    by (simp add: dump_contig_def dumped_def contig_record_def rec_text_def)
qed

lemma dumped_append: "dumped m (xs @ ys) = dumped m xs @ dumped m ys"
  by (simp add: dumped_def)

lemma dump_contigs_text:
  "dump_contigs dts m contigs = Inr t \<Longrightarrow>
     t = records_text (map (contig_record dts) (dumped m contigs)) \<and>
     (\<forall>c \<in> set (dumped m contigs). \<exists>rc. revcomp (ctg_seq c) = Inr rc)"
proof (induction contigs arbitrary: t)
  case Nil
  then show ?case by (simp add: dumped_def)
next
  case (Cons ctg contigs)
  from Cons.prems obtain t1 t2 where t1: "dump_contig dts m ctg = Inr t1"
    and t2: "dump_contigs dts m contigs = Inr t2" and t: "t = t1 @ t2"
    by (auto split: sum.splits)
  from dump_contig_text[OF t1] Cons.IH[OF t2] t
  show ?case using dumped_append[of m "[ctg]" contigs] by auto
qed

lemma dump_contigs_all_text:
  "dump_contigs_all dts m ctgss = Inr t \<Longrightarrow>
     t = records_text (map (contig_record dts) (dumped m (concat ctgss))) \<and>
     (\<forall>c \<in> set (dumped m (concat ctgss)). \<exists>rc. revcomp (ctg_seq c) = Inr rc)"
proof (induction ctgss arbitrary: t)
  case Nil
  then show ?case by (simp add: dumped_def)
next
  case (Cons contigs ctgss)
  from Cons.prems obtain t1 t2 where t1: "dump_contigs dts m contigs = Inr t1"
    and t2: "dump_contigs_all dts m ctgss = Inr t2" and t: "t = t1 @ t2"
    by (auto split: sum.splits)
  from dump_contigs_text[OF t1] Cons.IH[OF t2] t
  show ?case by (auto simp: dumped_append)
qed

lemma comp_seq_legal:
  "comp_seq xs = Inr ys \<Longrightarrow> \<forall>c \<in> set xs. c \<in> legal_bases"
proof (induction xs arbitrary: ys)
  case Nil
  then show ?case by simp
next
  case (Cons x xs)
  from Cons.prems obtain y ys' where y: "revcomp_base x = Inr y" and ys: "comp_seq xs = Inr ys'"
    by (auto split: sum.splits)
  from y have "x \<in> legal_bases"
    by (auto simp: revcomp_base_def legal_bases_iupac split: if_splits)
  with Cons.IH[OF ys] show ?case by simp
qed

lemma revcomp_legal: "revcomp s = Inr rc \<Longrightarrow> \<forall>c \<in> set s. c \<in> legal_bases"
  using comp_seq_legal[of "rev s" rc] by (simp add: revcomp_def)

lemma legal_base_plain: "c \<in> legal_bases \<Longrightarrow> c \<noteq> newline \<and> c \<noteq> CHR ''>''"
  by (auto simp: legal_bases_def newline_def)

lemma digit_plain: "is_digit c \<Longrightarrow> c \<noteq> newline \<and> c \<noteq> CHR ''>''"
  by (auto simp: is_digit_def newline_def less_eq_char_def)

lemma to_string_plain: "c \<in> set (to_string i) \<Longrightarrow> c \<noteq> newline \<and> c \<noteq> CHR ''>''"
  using nat_to_string_digits digit_plain
  by (auto simp: to_string_def newline_def split: if_splits)

lemma strtol_end_to_string:
  assumes "LONG_MIN \<le> i" "i \<le> LONG_MAX" "rest = [] \<or> \<not> is_digit (hd rest)"
  shows "strtol_end (to_string i @ rest) = (i, rest)"
proof (cases "i < 0")
  case False
  then show ?thesis
    using strtol_end_nat_to_string[of "nat i" rest] assms by (simp add: to_string_def)
next
  case True
  define n where "n = nat (- i)"
  let ?ds = "nat_to_string n"
  have i: "i = - int n" using True by (simp add: n_def)
  have dig: "\<forall>c \<in> set ?ds. is_digit c" by (rule nat_to_string_digits)
  have tw: "takeWhile is_digit (?ds @ rest) = ?ds"
    using dig assms(3) by (cases rest) (auto simp: takeWhile_append2)
  have dw: "dropWhile is_digit (?ds @ rest) = rest"
    using dig assms(3) by (cases rest) (auto simp: dropWhile_append2)
  have sp: "\<not> is_space CHR ''-''" by (simp add: is_space_def)
  have rng: "max LONG_MIN (min LONG_MAX (- int n)) = - int n"
    using assms(1,2) i by simp
  have "strtol_end (CHR ''-'' # ?ds @ rest) = (- int n, rest)"
    using nat_to_string_nonempty[of n]
    by (simp add: strtol_end_def sp tw dw Let_def digits_value_nat_to_string rng)
  then show ?thesis using True by (simp add: to_string_def n_def[symmetric] i)
qed

lemma parse_contig_record:
  assumes "LONG_MIN \<le> ctg_id ctg" "ctg_id ctg \<le> LONG_MAX"
  shows "parse_rec strtod (contig_record dts ctg) = reloaded dts strtod ctg"
proof -
  have d: "drop 7 (''>Contig'' @ to_string (ctg_id ctg) @ '' '' @ dts (ctg_depth ctg)) =
      to_string (ctg_id ctg) @ (CHR '' '' # dts (ctg_depth ctg))" by simp
  have "\<not> is_digit CHR '' ''" by (simp add: is_digit_def less_eq_char_def)
  then have "strtol_end (to_string (ctg_id ctg) @ (CHR '' '' # dts (ctg_depth ctg))) =
      (ctg_id ctg, CHR '' '' # dts (ctg_depth ctg))"
    by (intro strtol_end_to_string[OF assms]) simp
  then show ?thesis
    unfolding parse_rec_def contig_record_def fst_conv snd_conv d reloaded_def by simp
qed

lemma wf_contig_record:
  assumes "revcomp (ctg_seq ctg) = Inr rc" "ctg_seq ctg \<noteq> []"
    "newline \<notin> set (dts (ctg_depth ctg))" "CHR ''>'' \<notin> set (dts (ctg_depth ctg))"
  shows "wf_rec (contig_record dts ctg)"
proof -
  from revcomp_legal[OF assms(1)] legal_base_plain
  have s: "newline \<notin> set (ctg_seq ctg)" "CHR ''>'' \<notin> set (ctg_seq ctg)" by auto
  have i: "newline \<notin> set (to_string (ctg_id ctg))" "CHR ''>'' \<notin> set (to_string (ctg_id ctg))"
    using to_string_plain[of _ "ctg_id ctg"] by auto
  show ?thesis
    using s i assms(2,3,4) by (simp add: wf_rec_def contig_record_def newline_def)
qed

text \<open>
  Claim C4, amended. Let the ranks dump their contigs with \<open>dump_contigs\<close> without a fatal error
  (so every sequence written has legal characters only), and let the contigs that are written,
  those of at least \<open>min_ctg_len\<close> bases, have a sequence that is not empty, an id in the range
  of \<open>int64_t\<close>, and a depth whose text holds neither a newline nor \<open>>\<close>; let the file be shorter
  than \<open>2 ^ 63\<close> bytes. Then \<open>load_contigs\<close> on any positive number of ranks is not fatal, and
  the contigs of all ranks together are exactly the contigs written, in the order of the file,
  each once: the ids and the sequences as written, each depth as \<open>strtod\<close> reads it from the
  header. In particular the multiset of contigs is preserved.
\<close>

theorem dump_then_load_contigs:
  assumes "dump_contigs_all depth_to_string min_ctg_len ctgss = Inr fasta"
    and "\<forall>ctg \<in> set (dumped min_ctg_len (concat ctgss)).
           ctg_seq ctg \<noteq> [] \<and> LONG_MIN \<le> ctg_id ctg \<and> ctg_id ctg \<le> LONG_MAX \<and>
           newline \<notin> set (depth_to_string (ctg_depth ctg)) \<and>
           CHR ''>'' \<notin> set (depth_to_string (ctg_depth ctg))"
    and "length fasta < 2 ^ 63" and "0 < rank_n"
  shows "\<exists>loaded. load_contigs_all strtod fasta rank_n = Inr loaded \<and> length loaded = rank_n \<and>
           concat loaded = map (reloaded depth_to_string strtod) (dumped min_ctg_len (concat ctgss)) \<and>
           mset (concat loaded) =
             mset (map (reloaded depth_to_string strtod) (dumped min_ctg_len (concat ctgss)))"
proof -
  let ?cs = "dumped min_ctg_len (concat ctgss)"
  let ?rs = "map (contig_record depth_to_string) ?cs"
  from dump_contigs_all_text[OF assms(1)]
  have f: "fasta = records_text ?rs"
    and rc: "\<forall>c \<in> set ?cs. \<exists>rc. revcomp (ctg_seq c) = Inr rc" by simp_all
  have wf: "\<forall>r \<in> set ?rs. wf_rec r"
  proof
    fix r assume "r \<in> set ?rs"
    then obtain c where c: "c \<in> set ?cs" and r: "r = contig_record depth_to_string c" by auto
    from rc c obtain x where x: "revcomp (ctg_seq c) = Inr x" by blast
    from assms(2) c have "ctg_seq c \<noteq> []" "newline \<notin> set (depth_to_string (ctg_depth c))"
      "CHR ''>'' \<notin> set (depth_to_string (ctg_depth c))" by auto
    from wf_contig_record[of c x depth_to_string, OF x this] show "wf_rec r" unfolding r .
  qed
  have sz: "length (records_text ?rs) < 2 ^ 63" using assms(3) f by simp
  from load_contigs_all_records[OF wf sz assms(4), of strtod] f
  obtain loaded where l: "load_contigs_all strtod fasta rank_n = Inr loaded"
    and n: "length loaded = rank_n" and c: "concat loaded = map (parse_rec strtod) ?rs" by auto
  have "map (parse_rec strtod) ?rs = map (reloaded depth_to_string strtod) ?cs"
    using assms(2) by (auto simp: parse_contig_record)
  with c have c': "concat loaded = map (reloaded depth_to_string strtod) ?cs" by (simp only:)
  then have "mset (concat loaded) = mset (map (reloaded depth_to_string strtod) ?cs)" by (simp only:)
  with l n c' show ?thesis by blast
qed

text \<open>
  For the examples the depths are natural numbers, printed with six zero decimals as \<open>%f\<close> does
  and read back by their integer part. Three contigs on two ranks and their file.
\<close>

definition print_depth :: "nat \<Rightarrow> string" where
  "print_depth d = nat_to_string d @ ''.000000''"

definition read_depth :: "string \<Rightarrow> nat" where
  "read_depth s = nat (fst (strtol_end s))"

definition two_rank_contigs :: "nat Contig list list" where
  "two_rank_contigs =
     [[\<lparr>ctg_id = 0, ctg_seq = ''ACGT'', ctg_depth = 3\<rparr>,
       \<lparr>ctg_id = 7, ctg_seq = ''GGN'', ctg_depth = 12\<rparr>],
      [\<lparr>ctg_id = 25, ctg_seq = ''AC'', ctg_depth = 2\<rparr>]]"

definition two_rank_fasta :: string where
  "two_rank_fasta =
     ''>Contig0 3.000000'' @ [newline] @ ''ACGT'' @ [newline] @
     ''>Contig7 12.000000'' @ [newline] @ ''GGN'' @ [newline] @
     ''>Contig25 2.000000'' @ [newline] @ ''AC'' @ [newline]"

lemma nat_to_string_small:
  "nat_to_string 0 = ''0''" "nat_to_string 2 = ''2''" "nat_to_string 3 = ''3''"
  "nat_to_string 7 = ''7''" "nat_to_string 12 = ''12''" "nat_to_string 25 = ''25''"
  by (simp_all add: nat_to_string.simps digit_char_def char_of_def)

lemmas dump_eval = dump_contig_def revcomp_def revcomp_base_def to_string_def print_depth_def
  nat_to_string_small

lemma dump_two_rank: "dump_contigs_all print_depth 0 two_rank_contigs = Inr two_rank_fasta"
  by (simp add: dump_eval two_rank_contigs_def two_rank_fasta_def)

lemma read_depth_small:
  "read_depth (CHR '' '' # print_depth 3) = 3"
  "read_depth (CHR '' '' # print_depth 12) = 12"
  "read_depth (CHR '' '' # print_depth 2) = 2"
  by (simp_all add: read_depth_def print_depth_def nat_to_string_small strtol_end_def is_space_def
      is_digit_def less_eq_char_def digits_value_def digit_val_def LONG_MIN_def LONG_MAX_def Let_def)

text \<open>
  The theorem of claim C4 at these contigs, loaded by two ranks.
\<close>

theorem dump_then_load_contigs_witness:
  "dump_contigs_all print_depth 0 two_rank_contigs = Inr two_rank_fasta \<and>
   length two_rank_fasta < 2 ^ 63 \<and>
   (\<exists>loaded. load_contigs_all read_depth two_rank_fasta 2 = Inr loaded \<and> length loaded = 2 \<and>
      concat loaded =
        [\<lparr>ctg_id = 0, ctg_seq = ''ACGT'', ctg_depth = 3\<rparr>,
         \<lparr>ctg_id = 7, ctg_seq = ''GGN'', ctg_depth = 12\<rparr>,
         \<lparr>ctg_id = 25, ctg_seq = ''AC'', ctg_depth = 2\<rparr>])"
proof -
  have len: "length two_rank_fasta < 2 ^ 63" by (simp add: two_rank_fasta_def)
  have ok: "\<forall>ctg \<in> set (dumped 0 (concat two_rank_contigs)).
           ctg_seq ctg \<noteq> [] \<and> LONG_MIN \<le> ctg_id ctg \<and> ctg_id ctg \<le> LONG_MAX \<and>
           newline \<notin> set (print_depth (ctg_depth ctg)) \<and>
           CHR ''>'' \<notin> set (print_depth (ctg_depth ctg))"
    by (simp add: dumped_def two_rank_contigs_def LONG_MIN_def LONG_MAX_def print_depth_def
        nat_to_string_small newline_def)
  have m: "map (reloaded print_depth read_depth) (dumped 0 (concat two_rank_contigs)) =
        [\<lparr>ctg_id = 0, ctg_seq = ''ACGT'', ctg_depth = 3\<rparr>,
         \<lparr>ctg_id = 7, ctg_seq = ''GGN'', ctg_depth = 12\<rparr>,
         \<lparr>ctg_id = 25, ctg_seq = ''AC'', ctg_depth = 2\<rparr>]"
    by (simp add: dumped_def two_rank_contigs_def reloaded_def read_depth_small)
  from dump_then_load_contigs[OF dump_two_rank ok len, of 2 read_depth]
  show ?thesis unfolding m using dump_two_rank len by auto
qed

lemmas load_eval = load_contigs_all_def load_contigs_def start_offset_of_def
  get_file_offset_for_rank_def ifstream_open_def seekg_def tellg_def getline_def good_def
  size_t_of_def newline_def load_contigs_loop.simps scan_to_contig.simps Let_def

text \<open>
  Claim C4 as stated, for every collection, fails on the code. A contig with an empty sequence
  is written as a header and an empty line, on which the loop of the loader ends
  (\<open>if (seq == "") break;\<close>): one rank loads nothing. And a contig of 4 bases dumped with
  \<open>min_ctg_len = 5\<close> is not written at all, so that nothing is loaded either.
\<close>

theorem dump_then_load_loses_contigs_counterexample:
  "dump_contigs_all print_depth 0 [[\<lparr>ctg_id = 0, ctg_seq = [], ctg_depth = 3\<rparr>]] =
     Inr (''>Contig0 3.000000'' @ [CHR 0x0A, CHR 0x0A]) \<and>
   load_contigs_all read_depth (''>Contig0 3.000000'' @ [CHR 0x0A, CHR 0x0A]) 1 = Inr [[]] \<and>
   dump_contigs_all print_depth 5 [[\<lparr>ctg_id = 0, ctg_seq = ''ACGT'', ctg_depth = 3\<rparr>]] = Inr [] \<and>
   load_contigs_all read_depth [] 1 = Inr [[]]"
  by (simp add: dump_eval load_eval)

end
